theory Spec2Isabelle
  imports Main "HOL-Library.Word"
begin

section \<open>The macro expansion engine of lacc (src/preprocessor/macro.c)\<close>

text \<open>
  The theory embeds the functions of \<^verbatim>\<open>macro.c\<close> as HOL functions and proves the
  properties its specification states about them.

  \<^item> The process-wide variables of the file (\<^verbatim>\<open>macro_hash_table\<close>, \<^verbatim>\<open>new_macro_added\<close>,
    \<^verbatim>\<open>expand_stack\<close>) are the fields of the record \<open>engine\<close>, which every function that
    touches them takes and returns. The calls of \<^verbatim>\<open>error(...)\<close> are logged in a fourth
    field, \<open>errors\<close>.
  \<^item> \<^verbatim>\<open>error(...); exit(1);\<close> is the result \<open>Inl (Exit d)\<close>, a failed \<^verbatim>\<open>assert\<close> is
    \<open>Inl (Abort a)\<close>, and a read outside an array or a token list (behaviour the C
    program does not define) is \<open>Inl Undefined\<close>. A function that can do none of these
    returns its value directly.
  \<^item> The collaborators whose code is not in \<^verbatim>\<open>macro.c\<close> (the tokenizer, the spelling of
    a token, the line tracker) are the fields of the record \<open>extern\<close>, which the
    functions that call them take as their first argument.
\<close>

subsection \<open>Tokens\<close>

text \<open>
  Modelled from the spec: \<^verbatim>\<open>enum token_type\<close> and \<^verbatim>\<open>struct token\<close> are declared in
  \<^verbatim>\<open>tokenize.h\<close>, which is not part of the sources at hand. The kinds are those
  \<^verbatim>\<open>macro.c\<close> names; a punctuator is its character (the source writes \<^verbatim>\<open>'('\<close>, \<^verbatim>\<open>')'\<close>,
  \<^verbatim>\<open>','\<close> and \<^verbatim>\<open>'#'\<close>), and \<open>OTHER\<close> stands for the kinds the file never names.
  The payload \<^verbatim>\<open>d\<close> keeps one field for each member the source reads: \<^verbatim>\<open>d.string\<close>, an
  interned string whose \<^verbatim>\<open>str\<close> is the characters and whose \<^verbatim>\<open>len\<close> is their number,
  and \<^verbatim>\<open>d.number\<close>, a type and a value \<^verbatim>\<open>val\<close> read as signed (\<^verbatim>\<open>val.i\<close>) or as unsigned
  (\<^verbatim>\<open>val.u\<close>). The kinds of a numeric type are those of lacc; \<^verbatim>\<open>macro.c\<close> names
  \<^verbatim>\<open>T_UNSIGNED\<close> only. \<open>leading_whitespace\<close> is the spec's non-negative count.
\<close>

datatype token_type =
  END | NEWLINE | IDENTIFIER | NUMBER | STRING | PARAM | TOKEN_PASTE
  | PUNCT char | OTHER nat

datatype type_kind = T_SIGNED | T_UNSIGNED | T_REAL | T_POINTER

record ctype =
  kind :: type_kind
  size :: nat

record number =
  ntype :: ctype
  val :: "64 word"

record token =
  token :: token_type
  leading_whitespace :: nat
  d_string :: string
  d_number :: number

definition val_i :: "token \<Rightarrow> int" where
  "val_i t = sint (val (d_number t))"

definition val_u :: "token \<Rightarrow> int" where
  "val_u t = uint (val (d_number t))"

text \<open>\<^verbatim>\<open>type_equal\<close> and \<^verbatim>\<open>str_cmp\<close> are collaborators; the spec has them decide equality
  of numeric types and of interned strings. \<open>str_cmp\<close>, like the comparisons below that
  call it, is \<open>True\<close> where the source returns a non-zero value (the operands differ).\<close>

definition type_equal :: "ctype \<Rightarrow> ctype \<Rightarrow> bool" where
  "type_equal a b = (a = b)"

definition str_cmp :: "string \<Rightarrow> string \<Rightarrow> bool" where
  "str_cmp a b = (a \<noteq> b)"

definition tok_cmp :: "token \<Rightarrow> token \<Rightarrow> bool" where
  "tok_cmp a b =
     (if token a \<noteq> token b then True
      else if token a = PARAM then val_i a \<noteq> val_i b
      else if token a = NUMBER then
        (if \<not> type_equal (ntype (d_number a)) (ntype (d_number b)) then True
         else if kind (ntype (d_number a)) = T_UNSIGNED then val_u a \<noteq> val_u b
         else val_i a \<noteq> val_i b)
      else str_cmp (d_string a) (d_string b))"

subsection \<open>Macros and the macro table\<close>

datatype macro_type = OBJECT_LIKE | FUNCTION_LIKE

record macro =
  name :: token
  type :: macro_type
  params :: nat
  replacement :: "token list"

text \<open>The loop of \<^verbatim>\<open>macrocmp\<close> runs \<open>i\<close> over the indices of \<open>a\<close>'s replacement; it is
  reached only when the two replacement lists have the same length.\<close>

definition macrocmp :: "macro \<Rightarrow> macro \<Rightarrow> bool" where
  "macrocmp a b =
     (if type a \<noteq> type b \<or> params a \<noteq> params b then True
      else if tok_cmp (name a) (name b) then True
      else if length (replacement a) \<noteq> length (replacement b) then True
      else list_ex (\<lambda>i. tok_cmp (replacement a ! i) (replacement b ! i))
             [0..<length (replacement a)])"

text \<open>The structural equivalence of the specification (section 4.1): two macros agree
  on kind, number of parameters, name, length of the replacement list and, pairwise,
  on the replacement tokens under the token equality.\<close>

definition equivalent_macros :: "macro \<Rightarrow> macro \<Rightarrow> bool" where
  "equivalent_macros a b =
     (type a = type b \<and> params a = params b \<and> \<not> tok_cmp (name a) (name b)
      \<and> list_all2 (\<lambda>x y. \<not> tok_cmp x y) (replacement a) (replacement b))"

datatype diagnostic =
  RedefinitionMismatch | PasteAtBoundary | InvalidPasteResult
  | UnterminatedInvocation | UnbalancedParens | ExpectedToken token_type

datatype assertion = NotExpanded | StackNonEmpty | NoNewline | ListNonNull

datatype stop = Exit diagnostic | Abort assertion | Undefined

text \<open>\<^verbatim>\<open>exit(1)\<close> is the only call of \<^verbatim>\<open>exit\<close> in the file.\<close>

fun exit_status :: "stop \<Rightarrow> int option" where
  "exit_status (Exit d) = Some 1"
| "exit_status (Abort a) = None"
| "exit_status Undefined = None"

record engine =
  macro_hash_table :: "macro list"
  new_macro_added :: bool
  expand_stack :: "macro list"
  errors :: "diagnostic list"

record extern =
  tokenize :: "string \<Rightarrow> token \<times> string"
  tokstr :: "token \<Rightarrow> string"
  current_file_line :: "64 word"

text \<open>
  Modelled from the spec: the hash table of \<^verbatim>\<open>lacc/hash.h\<close> is not part of the sources
  at hand. The spec has it map an interned string to at most one macro, with lookup,
  insert-if-absent and remove; here it is the list of the stored macros, searched by
  the key \<^verbatim>\<open>macro_hash_key\<close> extracts (the string of the name). \<open>hash_insert\<close> returns
  the stored macro (the one found, or the copy \<^verbatim>\<open>macro_hash_add\<close> makes, which also
  sets \<^verbatim>\<open>new_macro_added\<close>). \<open>hash_store\<close> is a write through the pointer
  \<open>hash_lookup\<close> returned.
\<close>

definition macro_hash_key :: "macro \<Rightarrow> string" where
  "macro_hash_key m = d_string (name m)"

definition hash_lookup :: "macro list \<Rightarrow> string \<Rightarrow> macro option" where
  "hash_lookup tab key = find (\<lambda>m. macro_hash_key m = key) tab"

definition hash_insert :: "engine \<Rightarrow> macro \<Rightarrow> macro \<times> engine" where
  "hash_insert st m =
     (case hash_lookup (macro_hash_table st) (macro_hash_key m) of
        Some ref \<Rightarrow> (ref, st)
      | None \<Rightarrow>
          (m, st\<lparr>macro_hash_table := macro_hash_table st @ [m], new_macro_added := True\<rparr>))"

definition hash_remove :: "macro list \<Rightarrow> string \<Rightarrow> macro list" where
  "hash_remove tab key = filter (\<lambda>m. macro_hash_key m \<noteq> key) tab"

fun hash_store :: "macro list \<Rightarrow> macro \<Rightarrow> macro list" where
  "hash_store [] r = []"
| "hash_store (m # ms) r =
     (if macro_hash_key m = macro_hash_key r then r # ms else m # hash_store ms r)"

text \<open>\<^verbatim>\<open>definition\<close> of the source; the name is a keyword of Isabelle. For
  \<^verbatim>\<open>__LINE__\<close> it stores the current line in the first replacement token of the
  stored macro; \<^verbatim>\<open>array_get(&ref->replacement, 0)\<close> on an empty replacement is a
  write outside the array.\<close>

definition definition_of :: "extern \<Rightarrow> engine \<Rightarrow> token \<Rightarrow> stop + (macro option \<times> engine)" where
  "definition_of X st nam =
     (if token nam = IDENTIFIER then
        (case hash_lookup (macro_hash_table st) (d_string nam) of
           None \<Rightarrow> Inr (None, st)
         | Some ref \<Rightarrow>
             if \<not> str_cmp (d_string (name ref)) ''__LINE__'' then
               (case replacement ref of
                  [] \<Rightarrow> Inl Undefined
                | tok # toks \<Rightarrow>
                    let ref' = ref\<lparr>replacement :=
                          tok\<lparr>d_number := (d_number tok)\<lparr>val := current_file_line X\<rparr>\<rparr> # toks\<rparr>
                    in Inr (Some ref',
                            st\<lparr>macro_hash_table := hash_store (macro_hash_table st) ref'\<rparr>))
             else Inr (Some ref, st))
      else Inr (None, st))"

text \<open>\<^verbatim>\<open>define\<close> of the source (the name is a keyword of Isabelle) returns, beside
  the engine, whether it cleared the replacement list of
  its argument (\<^verbatim>\<open>array_clear(&macro.replacement)\<close>, when the table did not take the
  argument).\<close>

definition define_macro :: "engine \<Rightarrow> macro \<Rightarrow> stop + (engine \<times> bool)" where
  "define_macro st m =
     (let (ref, st') = hash_insert (st\<lparr>new_macro_added := False\<rparr>) m
      in if macrocmp ref m then Inl (Exit RedefinitionMismatch)
         else Inr (st', \<not> new_macro_added st'))"

definition undef :: "engine \<Rightarrow> token \<Rightarrow> engine" where
  "undef st nam =
     (if token nam = IDENTIFIER
      then st\<lparr>macro_hash_table := hash_remove (macro_hash_table st) (d_string nam)\<rparr>
      else st)"

subsection \<open>Token lists\<close>

text \<open>
  A token list of the source is an array that ends at its first token of kind \<open>END\<close>.
  The model is the HOL list of the tokens of the array before the final \<open>END\<close>, which
  is left implicit: \<open>[]\<close> is the list that holds the sentinel only. A token of kind
  \<open>END\<close> can stand inside the array (the tokenizer returns one for a string without
  a token, and \<^verbatim>\<open>append\<close> stores whatever token it is given); every function stops at
  the first one, as the source does, so the tokens behind it are not part of the list.
  \<open>peek\<close> is \<^verbatim>\<open>list->token\<close>.
\<close>

definition peek :: "token list \<Rightarrow> token_type" where
  "peek list = (case list of [] \<Rightarrow> END | t # _ \<Rightarrow> token t)"

fun len :: "token list \<Rightarrow> nat" where
  "len [] = 0"
| "len (t # list) = (if token t = END then 0 else Suc (len list))"

text \<open>\<^verbatim>\<open>concat\<close>, \<^verbatim>\<open>append\<close> and \<^verbatim>\<open>copy\<close> of the source. \<^verbatim>\<open>concat\<close> moves the \<open>len\<close>
  tokens of \<open>other\<close> and its sentinel behind the \<open>len\<close> tokens of \<open>list\<close>; \<^verbatim>\<open>append\<close>
  stores \<open>other\<close> where the sentinel of \<open>list\<close> was, and the sentinel behind it.\<close>

definition concat_list :: "token list \<Rightarrow> token list \<Rightarrow> token list" where
  "concat_list list other = take (len list) list @ take (len other) other"

definition append_tok :: "token list \<Rightarrow> token \<Rightarrow> token list" where
  "append_tok list other = take (len list) list @ [other]"

definition copy :: "token list \<Rightarrow> token list" where
  "copy list = take (len list) list"

subsection \<open>The stringify engine\<close>

text \<open>
  The buffer \<^verbatim>\<open>buf\<close> of \<^verbatim>\<open>stringify\<close> is modelled by the C string it holds (its
  characters before the terminating zero), and the three ways the source writes to it
  by what they do to that string:
  \<^item> \<open>store_space buf k\<close> is \<^verbatim>\<open>buf[k] = ' '; buf[k + 1] = '\0';\<close>: the string is cut
    at \<open>k\<close> and a space added when \<open>k\<close> is inside the string or at its terminator, and
    unchanged when \<open>k\<close> lies behind the terminator;
  \<^item> \<open>strncat_buf buf src n\<close> is \<^verbatim>\<open>strncat(buf, src, n)\<close>: it appends at most \<open>n\<close>
    characters of \<open>src\<close> and stops at the first zero byte of \<open>src\<close>, while \<^verbatim>\<open>len\<close> grows
    by the whole \<^verbatim>\<open>strval.len\<close>;
  \<^item> \<^verbatim>\<open>str_register(buf, len)\<close> takes \<open>len\<close> characters of the buffer; when the string
    is shorter than \<open>len\<close> these include bytes that were never written.
  The counter \<open>n\<close> of emitted tokens is that of the source, and \<open>ln\<close> is its \<^verbatim>\<open>len\<close>.
\<close>

definition store_space :: "string \<Rightarrow> nat \<Rightarrow> string" where
  "store_space buf k = (if k \<le> length buf then take k buf @ '' '' else buf)"

definition c_str :: "string \<Rightarrow> string" where
  "c_str src = takeWhile (\<lambda>c. c \<noteq> CHR 0x00) src"

definition strncat_buf :: "string \<Rightarrow> string \<Rightarrow> nat \<Rightarrow> string" where
  "strncat_buf buf src n = buf @ take n (c_str src)"

definition zero_number :: number where
  "zero_number = \<lparr>ntype = \<lparr>kind = T_SIGNED, size = 0\<rparr>, val = 0\<rparr>"

fun stringify_loop ::
  "extern \<Rightarrow> token list \<Rightarrow> nat \<Rightarrow> nat \<Rightarrow> string \<Rightarrow> stop + (nat \<times> string)" where
  "stringify_loop X [] n ln buf = Inr (ln, buf)"
| "stringify_loop X (t # list) n ln buf =
     (if token t = END then Inr (ln, buf)
      else if token t = NEWLINE then Inl (Abort NoNewline)
      else
        let strval = tokstr X t;
            ln' = ln + length strval
                  + (if leading_whitespace t \<noteq> 0 \<and> n \<noteq> 0 then 1 else 0);
            buf' = (if n \<noteq> 0 \<and> leading_whitespace t \<noteq> 0
                    then store_space buf (ln' - length strval - 1) else buf)
        in stringify_loop X list (n + 1) ln' (strncat_buf buf' strval ln'))"

definition stringify :: "extern \<Rightarrow> token list \<Rightarrow> stop + token" where
  "stringify X list =
     (case stringify_loop X list 0 0 [] of
        Inl e \<Rightarrow> Inl e
      | Inr (ln, buf) \<Rightarrow>
          if length buf < ln then Inl Undefined
          else Inr \<lparr>token = STRING, leading_whitespace = 0,
                    d_string = take ln buf, d_number = zero_number\<rparr>)"

text \<open>The payload the specification describes (section 4.4): the spellings of the
  tokens in order, with one space before a token that has leading whitespace and is
  not the first.\<close>

definition no_zero_byte :: "string \<Rightarrow> bool" where
  "no_zero_byte s = (CHR 0x00 \<notin> set s)"

definition normalized_spelling :: "extern \<Rightarrow> token list \<Rightarrow> string" where
  "normalized_spelling X list =
     concat (map (\<lambda>(i, t). (if 0 < leading_whitespace t \<and> 0 < i then '' '' else [])
                            @ tokstr X t)
                 (enumerate 0 list))"

subsection \<open>The paste engine\<close>

text \<open>
  \<open>tokenize X s\<close> is the token the tokenizer reads at the start of \<open>s\<close> and the part of
  \<open>s\<close> it did not read, from \<^verbatim>\<open>endptr\<close> on: \<^verbatim>\<open>endptr != data + length\<close> says that this
  part is not empty.
\<close>

definition paste :: "extern \<Rightarrow> token \<Rightarrow> token \<Rightarrow> stop + token" where
  "paste X left right =
     (let data = d_string left @ d_string right;
          (result, unread) = tokenize X data
      in if unread \<noteq> [] then Inl (Exit InvalidPasteResult)
         else Inr (result\<lparr>leading_whitespace := leading_whitespace left\<rparr>))"

text \<open>
  \<^verbatim>\<open>expand_paste_operators\<close> rewrites the list in place with a write pointer \<^verbatim>\<open>ptr\<close>
  that stays behind the read pointer \<^verbatim>\<open>end\<close>, so no write changes a token that is still
  to be read. In \<open>paste_loop X cur list\<close>, \<open>cur\<close> is the token at \<^verbatim>\<open>ptr\<close> and \<open>list\<close> the
  tokens from \<^verbatim>\<open>end\<close> on; the result is the list from \<^verbatim>\<open>ptr\<close> on as the loop leaves it.
\<close>

fun paste_loop :: "extern \<Rightarrow> token \<Rightarrow> token list \<Rightarrow> stop + token list" where
  "paste_loop X cur [] = Inr [cur]"
| "paste_loop X cur (e # list) =
     (if token e = END then Inr [cur]
      else if token e = TOKEN_PASTE then
        (case list of
           [] \<Rightarrow> Inl (Exit PasteAtBoundary)
         | r # list' \<Rightarrow>
             if token r = END then Inl (Exit PasteAtBoundary)
             else (case paste X cur r of
                     Inl s \<Rightarrow> Inl s
                   | Inr p \<Rightarrow> paste_loop X p list'))
      else if peek list = NEWLINE then Inl (Abort NoNewline)
      else (case paste_loop X e list of
              Inl s \<Rightarrow> Inl s
            | Inr out \<Rightarrow> Inr (cur # out)))"

definition expand_paste_operators :: "extern \<Rightarrow> token list \<Rightarrow> stop + token list" where
  "expand_paste_operators X list =
     (case list of
        [] \<Rightarrow> Inr list
      | t # list' \<Rightarrow>
          if token t = END then Inr list
          else if token t = TOKEN_PASTE then Inl (Exit PasteAtBoundary)
          else paste_loop X t list')"





subsection \<open>The expansion stack\<close>

text \<open>
  Modelled from the spec: the list of \<^verbatim>\<open>lacc/list.h\<close> is not part of the sources at
  hand. \<^verbatim>\<open>list_push\<close> and \<^verbatim>\<open>list_pop\<close> add and remove at the same end, here the head.
  The stack holds pointers to macros of the table; \<^verbatim>\<open>is_macro_expanded\<close> reads their
  names only, which no function changes.
\<close>

definition is_macro_expanded :: "engine \<Rightarrow> macro \<Rightarrow> bool" where
  "is_macro_expanded st m =
     list_ex (\<lambda>other. \<not> tok_cmp (name other) (name m)) (expand_stack st)"

definition push_expand_stack :: "engine \<Rightarrow> macro \<Rightarrow> stop + engine" where
  "push_expand_stack st m =
     (if is_macro_expanded st m then Inl (Abort NotExpanded)
      else Inr (st\<lparr>expand_stack := m # expand_stack st\<rparr>))"

definition pop_expand_stack :: "engine \<Rightarrow> stop + engine" where
  "pop_expand_stack st =
     (if expand_stack st = [] then Inl (Abort StackNonEmpty)
      else Inr (st\<lparr>expand_stack := tl (expand_stack st)\<rparr>))"

subsection \<open>The argument reader\<close>

text \<open>
  \<^verbatim>\<open>skip\<close> reports a token other than the expected one with \<^verbatim>\<open>error\<close> and goes on: it
  does not call \<^verbatim>\<open>exit\<close>. At the sentinel it would step past the end of the list, which
  the embedding does not follow (\<open>Undefined\<close>). The assertion reads the token after the
  next one only when the next one is a \<open>NEWLINE\<close>.
\<close>

definition skip :: "engine \<Rightarrow> token list \<Rightarrow> token_type \<Rightarrow> stop + (token list \<times> engine)" where
  "skip st list tok =
     (case list of
        [] \<Rightarrow> Inl Undefined
      | t # list' \<Rightarrow>
          if token t = END then Inl Undefined
          else
            let st' = (if token t \<noteq> tok
                       then st\<lparr>errors := errors st @ [ExpectedToken tok]\<rparr> else st)
            in if peek list' = NEWLINE \<and> peek (tl list') \<noteq> END then Inl (Abort NoNewline)
               else Inr (list', st'))"

text \<open>
  The \<^verbatim>\<open>do ... while\<close> loop of \<^verbatim>\<open>read_arg\<close>: the body runs on the first token before
  the condition looks at the next one. \<open>arg\<close> is the argument read so far, and the
  result is the argument and the rest of the input (\<^verbatim>\<open>*endptr\<close>).
\<close>

fun read_arg_loop ::
  "token list \<Rightarrow> int \<Rightarrow> token list \<Rightarrow> stop + (token list \<times> token list)" where
  "read_arg_loop [] nesting arg = Inl (Exit UnterminatedInvocation)"
| "read_arg_loop (t # list) nesting arg =
     (if token t = END then Inl (Exit UnterminatedInvocation)
      else
        let nesting' = (if token t = PUNCT CHR ''('' then nesting + 1
                        else if token t = PUNCT CHR '')'' then nesting - 1
                        else nesting)
        in if token t = PUNCT CHR '')'' \<and> nesting' < 0 then Inl (Exit UnbalancedParens)
           else if nesting' \<noteq> 0 \<or> (peek list \<noteq> PUNCT CHR '','' \<and> peek list \<noteq> PUNCT CHR '')'')
           then read_arg_loop list nesting' (arg @ [t])
           else Inr (arg @ [t], list))"

definition read_arg :: "token list \<Rightarrow> stop + (token list \<times> token list)" where
  "read_arg list = read_arg_loop list 0 []"

text \<open>
  \<^verbatim>\<open>read_args\<close> allocates \<^verbatim>\<open>macro->params\<close> null pointers (\<open>None\<close>) and, for a
  function-like macro, fills them in the loop \<open>read_args_loop\<close>, where \<open>n\<close> is the index
  of the argument to read.
\<close>

function read_args_loop ::
  "engine \<Rightarrow> token list \<Rightarrow> macro \<Rightarrow> nat \<Rightarrow> token list option list
   \<Rightarrow> stop + (token list option list \<times> token list \<times> engine)" where
  "read_args_loop st list m n args =
     (if n < params m then
        (case read_arg list of
           Inl e \<Rightarrow> Inl e
         | Inr (arg, list') \<Rightarrow>
             if int n < int (params m) - 1 then
               (case skip st list' (PUNCT CHR '','') of
                  Inl e \<Rightarrow> Inl e
                | Inr (list'', st') \<Rightarrow> read_args_loop st' list'' m (n + 1) (args[n := Some arg]))
             else read_args_loop st list' m (n + 1) (args[n := Some arg]))
      else Inr (args, list, st))"
  by pat_completeness auto
termination
  by (relation "measure (\<lambda>(st, list, m, n, args). params m - n)") auto

definition read_args ::
  "engine \<Rightarrow> token list \<Rightarrow> macro \<Rightarrow> stop + (token list option list \<times> token list \<times> engine)" where
  "read_args st list m =
     (let args = replicate (params m) None
      in if type m = FUNCTION_LIKE then
           (case skip st list (PUNCT CHR ''('') of
              Inl e \<Rightarrow> Inl e
            | Inr (list', st') \<Rightarrow>
                (case read_args_loop st' list' m 0 args of
                   Inl e \<Rightarrow> Inl e
                 | Inr (args', list'', st'') \<Rightarrow>
                     (case skip st'' list'' (PUNCT CHR '')'') of
                        Inl e \<Rightarrow> Inl e
                      | Inr (list''', st''') \<Rightarrow> Inr (args', list''', st'''))))
         else Inr (args, list, st))"

subsection \<open>The expander\<close>

fun needs_expansion :: "extern \<Rightarrow> engine \<Rightarrow> token list \<Rightarrow> stop + (bool \<times> engine)" where
  "needs_expansion X st [] = Inr (False, st)"
| "needs_expansion X st (t # list) =
     (if token t = END then Inr (False, st)
      else (case definition_of X st t of
              Inl e \<Rightarrow> Inl e
            | Inr (def, st') \<Rightarrow>
                (case def of
                   Some m \<Rightarrow> if \<not> is_macro_expanded st' m then Inr (True, st')
                             else needs_expansion X st' list
                 | None \<Rightarrow> needs_expansion X st' list)))"

text \<open>
  \<^verbatim>\<open>param = tok->d.number.val.i\<close> stores the value in an \<^verbatim>\<open>int\<close>; \<open>arg_at\<close> is
  \<^verbatim>\<open>args[param]\<close>, which lies in the array for \<open>0 \<le> param < macro->params\<close> only.
  \<open>set_leading_whitespace\<close> is \<^verbatim>\<open>expn->leading_whitespace = leading_whitespace\<close>.
\<close>

definition param_of :: "token \<Rightarrow> int" where
  "param_of tok = sint (ucast (val (d_number tok)) :: 32 word)"

definition arg_at :: "token list option list \<Rightarrow> int \<Rightarrow> stop + token list option" where
  "arg_at args param =
     (if 0 \<le> param \<and> param < int (length args) then Inr (args ! nat param)
      else Inl Undefined)"

definition set_leading_whitespace :: "token list \<Rightarrow> nat \<Rightarrow> token list" where
  "set_leading_whitespace expn w =
     (case expn of [] \<Rightarrow> [] | e # es \<Rightarrow> e\<lparr>leading_whitespace := w\<rparr> # es)"

text \<open>
  The condition under which \<^verbatim>\<open>expand\<close> treats a token with the definition \<open>m\<close> as an
  invocation, and the condition under which \<^verbatim>\<open>expand_macro\<close> stringifies.
\<close>

definition is_invocation :: "engine \<Rightarrow> macro \<Rightarrow> token list \<Rightarrow> bool" where
  "is_invocation st m list =
     (\<not> is_macro_expanded st m \<and> (type m \<noteq> FUNCTION_LIKE \<or> peek list = PUNCT CHR ''(''))"

definition is_stringify :: "token \<Rightarrow> token list \<Rightarrow> bool" where
  "is_stringify tok toks =
     (toks \<noteq> [] \<and> token tok = PUNCT CHR ''#'' \<and> token (hd toks) = PARAM)"

text \<open>
  \<^verbatim>\<open>expand\<close> and \<^verbatim>\<open>expand_macro\<close> with their loops. In \<open>expand_loop\<close>, \<open>list\<close> is the read
  pointer and \<open>res\<close> the result so far; in \<open>expand_macro_loop\<close>, \<open>toks\<close> is the
  replacement list from index \<open>i\<close> on. \<^verbatim>\<open>expand_macro\<close> reads the replacement list through
  the pointer \<^verbatim>\<open>definition\<close> returned; the only store into a stored macro is the line
  of \<^verbatim>\<open>__LINE__\<close>, which is the same at every lookup of one expansion, so the macro is
  passed as the value \<open>definition_of\<close> returned. Releasing memory is not modelled.
\<close>

function expand :: "extern \<Rightarrow> engine \<Rightarrow> token list \<Rightarrow> stop + (token list \<times> engine)"
  and expand_loop ::
    "extern \<Rightarrow> engine \<Rightarrow> token list \<Rightarrow> token list \<Rightarrow> stop + (token list \<times> engine)"
  and expand_macro ::
    "extern \<Rightarrow> engine \<Rightarrow> macro \<Rightarrow> token list option list \<Rightarrow> stop + (token list \<times> engine)"
  and expand_macro_loop ::
    "extern \<Rightarrow> engine \<Rightarrow> token list option list \<Rightarrow> token list \<Rightarrow> token list
     \<Rightarrow> stop + (token list \<times> engine)"
where
  "expand X st original =
     (case needs_expansion X st original of
        Inl e \<Rightarrow> Inl e
      | Inr (need, st') \<Rightarrow>
          if \<not> need then Inr (original, st') else expand_loop X st' original [])"
| "expand_loop X st list res =
     (case list of
        [] \<Rightarrow> Inr (res, st)
      | t # list' \<Rightarrow>
          if token t = END then Inr (res, st)
          else
            (case definition_of X st t of
               Inl e \<Rightarrow> Inl e
             | Inr (None, st1) \<Rightarrow> expand_loop X st1 list' (append_tok res t)
             | Inr (Some m, st1) \<Rightarrow>
                 if is_invocation st1 m list' then
                   (case read_args st1 list' m of
                      Inl e \<Rightarrow> Inl e
                    | Inr (args, list'', st2) \<Rightarrow>
                        (case expand_macro X st2 m args of
                           Inl e \<Rightarrow> Inl e
                         | Inr (expn, st3) \<Rightarrow>
                             expand_loop X st3 list''
                               (concat_list res
                                  (set_leading_whitespace expn (leading_whitespace t)))))
                 else expand_loop X st1 list' (append_tok res t)))"
| "expand_macro X st m args =
     (case push_expand_stack st m of
        Inl e \<Rightarrow> Inl e
      | Inr st1 \<Rightarrow>
          (case expand_macro_loop X st1 args (replacement m) [] of
             Inl e \<Rightarrow> Inl e
           | Inr (res, st2) \<Rightarrow>
               (case expand_paste_operators X res of
                  Inl e \<Rightarrow> Inl e
                | Inr res' \<Rightarrow>
                    (case expand X st2 res' of
                       Inl e \<Rightarrow> Inl e
                     | Inr (res'', st3) \<Rightarrow>
                         (case pop_expand_stack st3 of
                            Inl e \<Rightarrow> Inl e
                          | Inr st4 \<Rightarrow> Inr (res'', st4))))))"
| "expand_macro_loop X st args toks res =
     (case toks of
        [] \<Rightarrow> Inr (res, st)
      | tok # toks' \<Rightarrow>
          if token tok = PARAM then
            (case arg_at args (param_of tok) of
               Inl e \<Rightarrow> Inl e
             | Inr None \<Rightarrow> Inl (Abort ListNonNull)
             | Inr (Some arg) \<Rightarrow>
                 (case expand X st (copy arg) of
                    Inl e \<Rightarrow> Inl e
                  | Inr (expn, st') \<Rightarrow>
                      expand_macro_loop X st' args toks' (concat_list res expn)))
          else if is_stringify tok toks' then
            (case arg_at args (param_of (hd toks')) of
               Inl e \<Rightarrow> Inl e
             | Inr None \<Rightarrow> Inl Undefined
             | Inr (Some arg) \<Rightarrow>
                 (case stringify X arg of
                    Inl e \<Rightarrow> Inl e
                  | Inr s \<Rightarrow> expand_macro_loop X st args (tl toks') (append_tok res s)))
          else expand_macro_loop X st args toks' (append_tok res tok))"
  by pat_completeness auto

text \<open>
  Notions for the idempotence of \<^verbatim>\<open>expand\<close>. \<open>macro_name tab t\<close>: the token \<open>t\<close> is an
  identifier that the table \<open>tab\<close> maps to a macro. \<open>acyclic_objects rk tab\<close>: every macro of
  the table is object-like and has an identifier for its name, its replacement list
  holds no \<open>TOKEN_PASTE\<close> token, and every macro named in its replacement
  list has a smaller rank \<open>rk\<close> than the macro itself, so that no macro refers to itself,
  directly or through other macros. \<open>fully_expanded tab list\<close>: no token of the list (up
  to its first \<open>END\<close>) names a macro of the table. \<open>stack_above\<close> and \<open>names_below\<close> bound
  the ranks of the macros on the expansion stack from below and those of the names in
  a list from above.
\<close>

definition macro_name :: "macro list \<Rightarrow> token \<Rightarrow> bool" where
  "macro_name tab t = (token t = IDENTIFIER \<and> hash_lookup tab (d_string t) \<noteq> None)"






subsection \<open>Termination of the expander\<close>

text \<open>
  The recursion is nested: the engine a recursive call returns is passed to the next
  one. The calls keep the names of the table and of the stack (the \<open>shape\<close> of the
  engine), and \<^verbatim>\<open>expand_macro\<close> is entered only for a macro of the table that is not on
  the stack, so the number of names of the table that are not blocked by the stack
  decreases.
\<close>

definition blocked :: "token list \<Rightarrow> token \<Rightarrow> bool" where
  "blocked stack nam = list_ex (\<lambda>other. \<not> tok_cmp other nam) stack"

definition shape :: "engine \<Rightarrow> token list \<times> token list" where
  "shape st = (map name (macro_hash_table st), map name (expand_stack st))"

definition unexpanded :: "token list \<times> token list \<Rightarrow> nat" where
  "unexpanded sh = length (filter (\<lambda>nam. \<not> blocked (snd sh) nam) (fst sh))"

lemma tok_cmp_refl: "\<not> tok_cmp a a"
  by (simp add: tok_cmp_def type_equal_def str_cmp_def)

lemma is_macro_expanded_blocked:
  "is_macro_expanded st m = blocked (snd (shape st)) (name m)"
  by (simp add: is_macro_expanded_def blocked_def shape_def list_ex_iff)

lemma hash_lookup_Some:
  "hash_lookup tab key = Some ref \<Longrightarrow> ref \<in> set tab \<and> macro_hash_key ref = key"
  by (auto simp: hash_lookup_def find_Some_iff)

lemma hash_store_names:
  "hash_lookup tab key = Some ref \<Longrightarrow> name r = name ref
   \<Longrightarrow> map name (hash_store tab r) = map name tab"
proof (induction tab)
  case Nil
  then show ?case by (simp add: hash_lookup_def)
next
  case (Cons m ms)
  have key: "macro_hash_key r = key"
    using hash_lookup_Some [OF Cons.prems(1)] Cons.prems(2) by (simp add: macro_hash_key_def)
  show ?case
  proof (cases "macro_hash_key m = key")
    case True
    then have "ref = m" using Cons.prems(1) by (simp add: hash_lookup_def)
    then show ?thesis using True key Cons.prems(2) by simp
  next
    case False
    then have "hash_lookup ms key = Some ref" using Cons.prems(1) by (simp add: hash_lookup_def)
    then show ?thesis using False key Cons.IH Cons.prems(2) by simp
  qed
qed

definition line_macro :: "extern \<Rightarrow> macro \<Rightarrow> macro" where
  "line_macro X ref = ref\<lparr>replacement :=
     (hd (replacement ref))\<lparr>d_number := (d_number (hd (replacement ref)))\<lparr>val := current_file_line X\<rparr>\<rparr>
       # tl (replacement ref)\<rparr>"

lemma definition_of_cases:
  assumes "definition_of X st t = Inr (d, st')"
  shows "(d = None \<and> st' = st) \<or>
    (\<exists>ref. hash_lookup (macro_hash_table st) (d_string t) = Some ref \<and>
       ((d = Some ref \<and> st' = st) \<or>
        (d = Some (line_macro X ref) \<and>
         st' = st\<lparr>macro_hash_table := hash_store (macro_hash_table st) (line_macro X ref)\<rparr>)))"
proof (cases "token t = IDENTIFIER")
  case False
  then show ?thesis using assms by (simp add: definition_of_def)
next
  case ident: True
  show ?thesis
  proof (cases "hash_lookup (macro_hash_table st) (d_string t)")
    case None
    then show ?thesis using assms ident by (simp add: definition_of_def)
  next
    case (Some ref)
    show ?thesis
    proof (cases "str_cmp (d_string (name ref)) ''__LINE__''")
      case True
      then show ?thesis using assms ident Some by (auto simp: definition_of_def)
    next
      case False
      show ?thesis
      proof (cases "replacement ref")
        case Nil
        then show ?thesis using assms ident Some False by (simp add: definition_of_def)
      next
        case (Cons tok toks)
        then show ?thesis
          using assms ident Some False
          by (simp add: definition_of_def Let_def line_macro_def)
      qed
    qed
  qed
qed

lemma line_macro_name: "name (line_macro X ref) = name ref"
  by (simp add: line_macro_def)

lemma definition_of_shape:
  assumes "definition_of X st t = Inr (d, st')"
  shows "shape st' = shape st"
  using definition_of_cases [OF assms]
  by (auto simp: shape_def hash_store_names line_macro_name)

lemma definition_of_name:
  assumes "definition_of X st t = Inr (Some m, st')"
  shows "name m \<in> set (fst (shape st'))"
proof -
  obtain ref where ref: "hash_lookup (macro_hash_table st) (d_string t) = Some ref"
    and nm: "name m = name ref"
    using definition_of_cases [OF assms] by (auto simp: line_macro_name)
  have "name ref \<in> set (fst (shape st))"
    using hash_lookup_Some [OF ref] by (simp add: shape_def)
  then show ?thesis using definition_of_shape [OF assms] nm by simp
qed

lemma needs_expansion_shape:
  "needs_expansion X st list = Inr (b, st') \<Longrightarrow> shape st' = shape st"
proof (induction list arbitrary: st)
  case Nil
  then show ?case by simp
next
  case (Cons t list)
  show ?case
  proof (cases "token t = END")
    case True
    then show ?thesis using Cons.prems by simp
  next
    case False
    then obtain d st1 where d: "definition_of X st t = Inr (d, st1)"
      using Cons.prems by (cases "definition_of X st t") auto
    have sh: "shape st1 = shape st" using definition_of_shape [OF d] .
    show ?thesis
    proof (cases "needs_expansion X st (t # list) = Inr (True, st1)")
      case True
      then show ?thesis using Cons.prems sh by simp
    next
      case stop: False
      then have "needs_expansion X st1 list = Inr (b, st')"
        using Cons.prems False d by (cases d) (simp_all split: if_splits)
      then show ?thesis using Cons.IH sh by simp
    qed
  qed
qed

lemma skip_shape: "skip st list tok = Inr (list', st') \<Longrightarrow> shape st' = shape st"
  by (cases list) (auto simp: skip_def shape_def Let_def split: if_splits)

lemma skip_length: "skip st list tok = Inr (list', st') \<Longrightarrow> length list' < length list"
  by (cases list) (auto simp: skip_def Let_def split: if_splits)

lemma read_arg_loop_length:
  "read_arg_loop list nesting arg = Inr (arg', list') \<Longrightarrow> length list' < length list"
proof (induction list arbitrary: nesting arg)
  case Nil
  then show ?case by simp
next
  case (Cons t list)
  define n' where "n' = (if token t = PUNCT CHR ''('' then nesting + 1
                        else if token t = PUNCT CHR '')'' then nesting - 1
                        else nesting)"
  have eq: "read_arg_loop (t # list) nesting arg =
     (if token t = END then Inl (Exit UnterminatedInvocation)
      else if token t = PUNCT CHR '')'' \<and> n' < 0 then Inl (Exit UnbalancedParens)
           else if n' \<noteq> 0 \<or> (peek list \<noteq> PUNCT CHR '','' \<and> peek list \<noteq> PUNCT CHR '')'')
           then read_arg_loop list n' (arg @ [t])
           else Inr (arg @ [t], list))"
    unfolding n'_def by (simp only: read_arg_loop.simps Let_def)
  show ?case
  proof (cases "n' \<noteq> 0 \<or> (peek list \<noteq> PUNCT CHR '','' \<and> peek list \<noteq> PUNCT CHR '')'')")
    case True
    then have "read_arg_loop list n' (arg @ [t]) = Inr (arg', list')"
      using Cons.prems unfolding eq by (simp split: if_splits)
    then show ?thesis using Cons.IH by fastforce
  next
    case False
    then have "list' = list"
      using Cons.prems unfolding eq by (simp split: if_splits)
    then show ?thesis by simp
  qed
qed

declare read_args_loop.simps [simp del]

lemma read_args_loop_shape_length:
  "read_args_loop st list m n args = Inr (args', list', st')
   \<Longrightarrow> shape st' = shape st \<and> length list' \<le> length list"
proof (induction st list m n args rule: read_args_loop.induct)
  case (1 st list m n args)
  note eq = read_args_loop.simps [of st list m n args]
  show ?case
  proof (cases "n < params m")
    case False
    then show ?thesis using "1.prems" by (simp add: eq)
  next
    case True
    then obtain arg l1 where ra: "read_arg list = Inr (arg, l1)"
      using "1.prems" by (cases "read_arg list") (auto simp: eq)
    have l1: "length l1 < length list"
      using ra read_arg_loop_length by (simp add: read_arg_def)
    show ?thesis
    proof (cases "int n < int (params m) - 1")
      case c: True
      then obtain l2 st2 where sk: "skip st l1 (PUNCT CHR '','') = Inr (l2, st2)"
        using "1.prems" True ra by (cases "skip st l1 (PUNCT CHR '','')") (auto simp: eq)
      have rec: "read_args_loop st2 l2 m (n + 1) (args[n := Some arg]) = Inr (args', list', st')"
        using "1.prems" True ra c sk by (simp add: eq)
      have "shape st' = shape st2 \<and> length list' \<le> length l2"
        using "1.IH"(1) [OF True ra refl c sk refl rec] .
      then show ?thesis using skip_shape [OF sk] skip_length [OF sk] l1 by simp
    next
      case c: False
      then have rec: "read_args_loop st l1 m (n + 1) (args[n := Some arg]) = Inr (args', list', st')"
        using "1.prems" True ra by (simp add: eq)
      have "shape st' = shape st \<and> length list' \<le> length l1"
        using "1.IH"(2) [OF True ra refl c rec] .
      then show ?thesis using l1 by simp
    qed
  qed
qed

lemma read_args_shape_length:
  assumes "read_args st list m = Inr (args, list', st')"
  shows "shape st' = shape st \<and> length list' \<le> length list"
proof (cases "type m = FUNCTION_LIKE")
  case False
  then show ?thesis using assms by (simp add: read_args_def Let_def)
next
  case True
  obtain l1 st1 where s1: "skip st list (PUNCT CHR ''('') = Inr (l1, st1)"
    using assms True by (cases "skip st list (PUNCT CHR ''('')") (auto simp: read_args_def Let_def)
  obtain a2 l2 st2 where s2:
    "read_args_loop st1 l1 m 0 (replicate (params m) None) = Inr (a2, l2, st2)"
    using assms True s1
    by (cases "read_args_loop st1 l1 m 0 (replicate (params m) None)")
       (auto simp: read_args_def Let_def)
  have s3: "skip st2 l2 (PUNCT CHR '')'') = Inr (list', st')"
    using assms True s1 s2
    by (cases "skip st2 l2 (PUNCT CHR '')'')") (auto simp: read_args_def Let_def)
  show ?thesis
    using skip_shape [OF s1] skip_length [OF s1] read_args_loop_shape_length [OF s2]
      skip_shape [OF s3] skip_length [OF s3] by simp
qed

lemma push_shape:
  "push_expand_stack st m = Inr st1 \<Longrightarrow> shape st1 = (fst (shape st), name m # snd (shape st))"
  by (auto simp: push_expand_stack_def shape_def split: if_splits)

lemma pop_shape:
  "pop_expand_stack st = Inr st1 \<Longrightarrow> shape st1 = (fst (shape st), tl (snd (shape st)))"
  by (auto simp: pop_expand_stack_def shape_def map_tl split: if_splits)

lemma expand_shape_partial:
  "expand_expand_loop_expand_macro_expand_macro_loop_dom (Inl (Inl (X, st, original)))
   \<Longrightarrow> expand X st original = Inr (out, st') \<Longrightarrow> shape st' = shape st"
  "expand_expand_loop_expand_macro_expand_macro_loop_dom (Inl (Inr (X, st, list, res)))
   \<Longrightarrow> expand_loop X st list res = Inr (out, st') \<Longrightarrow> shape st' = shape st"
  "expand_expand_loop_expand_macro_expand_macro_loop_dom (Inr (Inl (X, st, m, args)))
   \<Longrightarrow> expand_macro X st m args = Inr (out, st') \<Longrightarrow> shape st' = shape st"
  "expand_expand_loop_expand_macro_expand_macro_loop_dom (Inr (Inr (X, st, args, toks, res)))
   \<Longrightarrow> expand_macro_loop X st args toks res = Inr (out, st') \<Longrightarrow> shape st' = shape st"
proof (induct arbitrary: out st' and out st' and out st' and out st'
       rule: expand_expand_loop_expand_macro_expand_macro_loop.pinduct)
  case (1 X st original)
  note pr = "1.prems" [unfolded expand.psimps [OF "1.hyps"(1)]]
  obtain need st1 where ne: "needs_expansion X st original = Inr (need, st1)"
    using pr by (cases "needs_expansion X st original") auto
  have sh: "shape st1 = shape st" using needs_expansion_shape [OF ne] .
  show ?case
  proof (cases need)
    case False
    then show ?thesis using pr ne sh by simp
  next
    case True
    then have "expand_loop X st1 original [] = Inr (out, st')"
      using pr ne by simp
    then show ?thesis using "1.hyps"(2) [OF ne refl] True sh by simp
  qed
next
  case (2 X st list res)
  note pr = "2.prems" [unfolded expand_loop.psimps [OF "2.hyps"(1)]]
  show ?case
  proof (cases list)
    case Nil
    then show ?thesis using pr by simp
  next
    case (Cons t list')
    show ?thesis
    proof (cases "token t = END")
      case True
      then show ?thesis using pr Cons by simp
    next
      case notend: False
      obtain d st1 where d: "definition_of X st t = Inr (d, st1)"
        using pr Cons notend by (cases "definition_of X st t") auto
      have sh1: "shape st1 = shape st" using definition_of_shape [OF d] .
      show ?thesis
      proof (cases d)
        case None
        then have "expand_loop X st1 list' (append_tok res t) = Inr (out, st')"
          using pr Cons notend d by simp
        then show ?thesis using "2.hyps"(2) [OF Cons notend d refl] None sh1 by simp
      next
        case (Some m)
        show ?thesis
        proof (cases "is_invocation st1 m list'")
          case False
          then have "expand_loop X st1 list' (append_tok res t) = Inr (out, st')"
            using pr Cons notend d Some by simp
          then show ?thesis using "2.hyps"(5) [OF Cons notend d refl _ False] Some sh1 by simp
        next
          case True
          obtain args l2 st2 where ra: "read_args st1 list' m = Inr (args, l2, st2)"
            using pr Cons notend d Some True
            by (cases "read_args st1 list' m") auto
          have sh2: "shape st2 = shape st1" using read_args_shape_length [OF ra] by simp
          obtain expn st3 where em: "expand_macro X st2 m args = Inr (expn, st3)"
            using pr Cons notend d Some True ra
            by (cases "expand_macro X st2 m args") auto
          have sh3: "shape st3 = shape st2"
            using "2.hyps"(3) [OF Cons notend d refl _ True ra refl refl em] Some by simp
          have "expand_loop X st3 l2
                  (concat_list res (set_leading_whitespace expn (leading_whitespace t)))
                = Inr (out, st')"
            using pr Cons notend d Some True ra em by simp
          then show ?thesis
            using "2.hyps"(4) [OF Cons notend d refl _ True ra refl refl em refl] Some
              sh1 sh2 sh3
            by simp
        qed
      qed
    qed
  qed
next
  case (3 X st m args)
  note pr = "3.prems" [unfolded expand_macro.psimps [OF "3.hyps"(1)]]
  obtain st1 where pu: "push_expand_stack st m = Inr st1"
    using pr by (cases "push_expand_stack st m") auto
  obtain res st2 where lo: "expand_macro_loop X st1 args (replacement m) [] = Inr (res, st2)"
    using pr pu
    by (cases "expand_macro_loop X st1 args (replacement m) []") auto
  obtain res' where pa: "expand_paste_operators X res = Inr res'"
    using pr pu lo by (cases "expand_paste_operators X res") auto
  obtain res'' st3 where ex: "expand X st2 res' = Inr (res'', st3)"
    using pr pu lo pa by (cases "expand X st2 res'") auto
  have po: "pop_expand_stack st3 = Inr st'"
    using pr pu lo pa ex by (cases "pop_expand_stack st3") auto
  have "shape st2 = shape st1" using "3.hyps"(2) [OF pu lo] .
  moreover have "shape st3 = shape st2" using "3.hyps"(3) [OF pu lo refl pa ex] .
  ultimately show ?case using push_shape [OF pu] pop_shape [OF po] by simp
next
  case (4 X st args toks res)
  note pr = "4.prems" [unfolded expand_macro_loop.psimps [OF "4.hyps"(1)]]
  show ?case
  proof (cases toks)
    case Nil
    then show ?thesis using pr by simp
  next
    case (Cons tok toks')
    show ?thesis
    proof (cases "token tok = PARAM")
      case True
      obtain arg where ar: "arg_at args (param_of tok) = Inr (Some arg)"
        using pr Cons True
        by (cases "arg_at args (param_of tok)") (auto split: option.splits)
      obtain expn st1 where ex: "expand X st (copy arg) = Inr (expn, st1)"
        using pr Cons True ar by (cases "expand X st (copy arg)") auto
      have "expand_macro_loop X st1 args toks' (concat_list res expn) = Inr (out, st')"
        using pr Cons True ar ex by simp
      then show ?thesis
        using "4.hyps"(2) [OF Cons True ar refl ex] "4.hyps"(3) [OF Cons True ar refl ex refl]
        by simp
    next
      case notparam: False
      show ?thesis
      proof (cases "is_stringify tok toks'")
        case True
        obtain arg where ar: "arg_at args (param_of (hd toks')) = Inr (Some arg)"
          using pr Cons notparam True
          by (cases "arg_at args (param_of (hd toks'))") (auto split: option.splits)
        obtain s where sf: "stringify X arg = Inr s"
          using pr Cons notparam True ar by (cases "stringify X arg") auto
        have "expand_macro_loop X st args (tl toks') (append_tok res s) = Inr (out, st')"
          using pr Cons notparam True ar sf by simp
        then show ?thesis using "4.hyps"(4) [OF Cons notparam True ar refl sf] by simp
      next
        case False
        then have "expand_macro_loop X st args toks' (append_tok res tok) = Inr (out, st')"
          using pr Cons notparam by simp
        then show ?thesis using "4.hyps"(5) [OF Cons notparam False] by simp
      qed
    qed
  qed
qed

lemma length_filter_mono_le:
  "(\<And>x. x \<in> set xs \<Longrightarrow> P x \<Longrightarrow> Q x) \<Longrightarrow> length (filter P xs) \<le> length (filter Q xs)"
  by (induction xs) auto

lemma length_filter_less_witness:
  assumes "\<And>x. x \<in> set xs \<Longrightarrow> P x \<Longrightarrow> Q x" and "a \<in> set xs" and "Q a" and "\<not> P a"
  shows "length (filter P xs) < length (filter Q xs)"
  using assms
proof (induction xs)
  case Nil
  then show ?case by simp
next
  case (Cons x xs)
  show ?case
  proof (cases "x = a")
    case True
    have "length (filter P xs) \<le> length (filter Q xs)"
      using Cons.prems(1) by (intro length_filter_mono_le) auto
    then show ?thesis using True Cons.prems by simp
  next
    case False
    then have "length (filter P xs) < length (filter Q xs)"
      using Cons by auto
    then show ?thesis using Cons.prems(1) [of x] by auto
  qed
qed

lemma unexpanded_push:
  assumes "nam \<in> set names" and "\<not> blocked stack nam"
  shows "unexpanded (names, nam # stack) < unexpanded (names, stack)"
  unfolding unexpanded_def fst_conv snd_conv
proof (rule length_filter_less_witness [where a = nam])
  show "\<not> \<not> blocked (nam # stack) nam" by (simp add: blocked_def tok_cmp_refl)
qed (use assms in \<open>auto simp: blocked_def\<close>)

fun expand_measure ::
  "(extern \<times> engine \<times> token list + extern \<times> engine \<times> token list \<times> token list)
   + (extern \<times> engine \<times> macro \<times> token list option list
      + extern \<times> engine \<times> token list option list \<times> token list \<times> token list)
   \<Rightarrow> nat \<times> nat \<times> nat" where
  "expand_measure (Inl (Inl (X, st, original))) = (2 * unexpanded (shape st), 3, 0)"
| "expand_measure (Inl (Inr (X, st, list, res))) = (2 * unexpanded (shape st), 2, length list)"
| "expand_measure (Inr (Inl (X, st, m, args))) =
     (2 * unexpanded (fst (shape st), name m # snd (shape st)) + 1, 0, 0)"
| "expand_measure (Inr (Inr (X, st, args, toks, res))) =
     (2 * unexpanded (shape st), 4, length toks)"

lemma invocation_decreases:
  assumes d: "definition_of X st t = Inr (Some m, st1)"
    and inv: "is_invocation st1 m list"
    and sh: "shape st2 = shape st1"
  shows "unexpanded (fst (shape st2), name m # snd (shape st2)) < unexpanded (shape st)"
proof -
  have "\<not> blocked (snd (shape st1)) (name m)"
    using inv by (simp add: is_invocation_def is_macro_expanded_blocked)
  then have "unexpanded (fst (shape st1), name m # snd (shape st1))
             < unexpanded (fst (shape st1), snd (shape st1))"
    using definition_of_name [OF d] by (intro unexpanded_push)
  then show ?thesis using sh definition_of_shape [OF d] by simp
qed

lemma expand_total: "All expand_expand_loop_expand_macro_expand_macro_loop_dom"
proof (relation "inv_image (less_than <*lex*> less_than <*lex*> less_than) expand_measure",
    goal_cases)
  case 1
  show ?case by (intro wf_inv_image wf_lex_prod wf_less_than)
next
  case (2 X st original b need st1)
  then show ?case using needs_expansion_shape [of X st original need st1] by simp
next
  case (3 X st list res t list' b d st1)
  then show ?case using definition_of_shape [of X st t d st1] by simp
next
  case (4 X st list res t list' b d st1 m ba args ya list'' st2)
  have d: "definition_of X st t = Inr (Some m, st1)" using 4 by simp
  have sh: "shape st2 = shape st1"
    using read_args_shape_length [of st1 list' m args list'' st2] 4 by simp
  show ?case using invocation_decreases [OF d "4"(6) sh] by simp
next
  case (5 X st list res t list' b d st1 m ba args ya list'' st2 bb expn st3)
  have "shape st1 = shape st" using definition_of_shape [of X st t d st1] 5 by simp
  moreover have "shape st2 = shape st1 \<and> length list'' \<le> length list'"
    using read_args_shape_length [of st1 list' m args list'' st2] 5 by simp
  moreover have "shape st3 = shape st2"
    using expand_shape_partial(3) [OF "5"(12)] 5 by auto
  ultimately show ?case using "5"(1) by simp
next
  case (6 X st list res t list' b d st1 m)
  then show ?case using definition_of_shape [of X st t d st1] by simp
next
  case (7 X st m args st1)
  then show ?case using push_shape [OF "7"] by simp
next
  case (8 X st m args st1 ba res st2 res')
  have "shape st2 = shape st1" using expand_shape_partial(4) [OF "8"(5)] 8 by auto
  then show ?case using push_shape [OF "8"(1)] by simp
next
  case 9
  then show ?case by simp
next
  case (10 X st args toks res tok toks' b arg ba expn st1)
  have "shape st1 = shape st" using expand_shape_partial(1) [OF "10"(7)] 10 by auto
  then show ?case using "10"(1) by simp
next
  case (11 X st args toks res tok toks')
  then show ?case by (cases toks') (simp_all add: is_stringify_def)
next
  case 12
  then show ?case by simp
qed

termination expand
  by (rule expand_total)

declare expand.simps [simp del] expand_loop.simps [simp del] expand_macro.simps [simp del]
  expand_macro_loop.simps [simp del]

subsection \<open>Instances for the worked examples\<close>

text \<open>
  The theorems below hold for every tokenizer, spelling function and line. Their worked
  examples need particular ones: \<open>example_tokenize\<close> reads an identifier (letters, digits
  and underscores), the operator \<^verbatim>\<open>##\<close>, or one other character, and returns a token of
  kind \<open>END\<close> for the empty string; the spelling of a token is its string; the line
  tracker reports line 17. The other definitions build tokens and macros.
\<close>

definition mk_token :: "token_type \<Rightarrow> nat \<Rightarrow> string \<Rightarrow> token" where
  "mk_token k w s = \<lparr>token = k, leading_whitespace = w, d_string = s, d_number = zero_number\<rparr>"

definition ident :: "nat \<Rightarrow> string \<Rightarrow> token" where
  "ident w s = mk_token IDENTIFIER w s"

definition punct :: "nat \<Rightarrow> char \<Rightarrow> token" where
  "punct w c = mk_token (PUNCT c) w [c]"

definition paste_op :: "nat \<Rightarrow> token" where
  "paste_op w = mk_token TOKEN_PASTE w ''##''"

definition int_number :: "nat \<Rightarrow> string \<Rightarrow> 64 word \<Rightarrow> token" where
  "int_number w s v =
     \<lparr>token = NUMBER, leading_whitespace = w, d_string = s,
      d_number = \<lparr>ntype = \<lparr>kind = T_SIGNED, size = 4\<rparr>, val = v\<rparr>\<rparr>"

definition param :: "nat \<Rightarrow> 64 word \<Rightarrow> token" where
  "param w k =
     \<lparr>token = PARAM, leading_whitespace = w, d_string = [],
      d_number = \<lparr>ntype = \<lparr>kind = T_SIGNED, size = 4\<rparr>, val = k\<rparr>\<rparr>"

definition ident_char :: "char \<Rightarrow> bool" where
  "ident_char c =
     (c \<in> set ''abcdefghijklmnopqrstuvwxyzABCDEFGHIJKLMNOPQRSTUVWXYZ0123456789_'')"

definition example_tokenize :: "string \<Rightarrow> token \<times> string" where
  "example_tokenize s =
     (case s of
        [] \<Rightarrow> (mk_token END 0 [], [])
      | c # cs \<Rightarrow>
          if ident_char c
          then (ident 0 (takeWhile ident_char s), dropWhile ident_char s)
          else if c = CHR ''#'' \<and> cs \<noteq> [] \<and> hd cs = CHR ''#''
          then (paste_op 0, tl cs)
          else (punct 0 c, cs))"

definition example_extern :: extern where
  "example_extern =
     \<lparr>tokenize = example_tokenize, tokstr = d_string, current_file_line = 17\<rparr>"

definition example_engine :: "macro list \<Rightarrow> engine" where
  "example_engine tab =
     \<lparr>macro_hash_table = tab, new_macro_added = False, expand_stack = [], errors = []\<rparr>"

definition object_macro :: "string \<Rightarrow> token list \<Rightarrow> macro" where
  "object_macro s r =
     \<lparr>name = ident 0 s, type = OBJECT_LIKE, params = 0, replacement = r\<rparr>"

definition function_macro :: "string \<Rightarrow> nat \<Rightarrow> token list \<Rightarrow> macro" where
  "function_macro s n r =
     \<lparr>name = ident 0 s, type = FUNCTION_LIKE, params = n, replacement = r\<rparr>"

text \<open>The embedding on three scenarios of the specification (section 8): \<^verbatim>\<open>FOO + FOO\<close>
  with \<open>FOO\<close> defined as \<^verbatim>\<open>42\<close>; \<^verbatim>\<open>CAT(foo, _bar)\<close> with \<open>CAT(a,b)\<close> defined as
  \<^verbatim>\<open>a ## b\<close>; and \<^verbatim>\<open>MAX(foo(1,2), 3)\<close> with \<open>MAX(a,b)\<close> defined as
  \<^verbatim>\<open>((a)>(b)?(a):(b))\<close>.\<close>

lemma expand_scenarios:
  "expand example_extern (example_engine [object_macro ''FOO'' [int_number 0 ''42'' 42]])
     [ident 0 ''FOO'', punct 1 CHR ''+'', ident 1 ''FOO'']
   = Inr ([int_number 0 ''42'' 42, punct 1 CHR ''+'', int_number 1 ''42'' 42],
          example_engine [object_macro ''FOO'' [int_number 0 ''42'' 42]])"
  "expand example_extern
     (example_engine [function_macro ''CAT'' 2 [param 0 0, paste_op 1, param 1 1]])
     [ident 0 ''CAT'', punct 0 CHR ''('', ident 0 ''foo'', punct 0 CHR '','', ident 1 ''_bar'',
      punct 0 CHR '')'']
   = Inr ([ident 0 ''foo_bar''],
          example_engine [function_macro ''CAT'' 2 [param 0 0, paste_op 1, param 1 1]])"
  "expand example_extern
     (example_engine [function_macro ''MAX'' 2
        [punct 0 CHR ''('', punct 0 CHR ''('', param 0 0, punct 0 CHR '')'', punct 0 CHR ''>'',
         punct 0 CHR ''('', param 0 1, punct 0 CHR '')'', punct 0 CHR ''?'', punct 0 CHR ''('',
         param 0 0, punct 0 CHR '')'', punct 0 CHR '':'', punct 0 CHR ''('', param 0 1,
         punct 0 CHR '')'', punct 0 CHR '')'']])
     [ident 0 ''MAX'', punct 0 CHR ''('', ident 0 ''foo'', punct 0 CHR ''('',
      int_number 0 ''1'' 1, punct 0 CHR '','', int_number 0 ''2'' 2, punct 0 CHR '')'',
      punct 0 CHR '','', int_number 1 ''3'' 3, punct 0 CHR '')'']
   = Inr ([punct 0 CHR ''('', punct 0 CHR ''('', ident 0 ''foo'', punct 0 CHR ''('',
           int_number 0 ''1'' 1, punct 0 CHR '','', int_number 0 ''2'' 2, punct 0 CHR '')'',
           punct 0 CHR '')'', punct 0 CHR ''>'', punct 0 CHR ''('', int_number 1 ''3'' 3,
           punct 0 CHR '')'', punct 0 CHR ''?'', punct 0 CHR ''('', ident 0 ''foo'',
           punct 0 CHR ''('', int_number 0 ''1'' 1, punct 0 CHR '','', int_number 0 ''2'' 2,
           punct 0 CHR '')'', punct 0 CHR '')'', punct 0 CHR '':'', punct 0 CHR ''('',
           int_number 1 ''3'' 3, punct 0 CHR '')'', punct 0 CHR '')''],
          example_engine [function_macro ''MAX'' 2
            [punct 0 CHR ''('', punct 0 CHR ''('', param 0 0, punct 0 CHR '')'',
             punct 0 CHR ''>'', punct 0 CHR ''('', param 0 1, punct 0 CHR '')'',
             punct 0 CHR ''?'', punct 0 CHR ''('', param 0 0, punct 0 CHR '')'',
             punct 0 CHR '':'', punct 0 CHR ''('', param 0 1, punct 0 CHR '')'',
             punct 0 CHR '')'']])"
  by code_simp+

section \<open>The claims\<close>

lemmas example_simps =
  example_extern_def example_tokenize_def ident_char_def ident_def punct_def paste_op_def
  mk_token_def int_number_def param_def

subsection \<open>Definition and redefinition\<close>

lemma tok_cmp_sym: "tok_cmp a b = tok_cmp b a"
  by (auto simp: tok_cmp_def type_equal_def str_cmp_def)

lemma tok_cmp_trans: "\<not> tok_cmp a b \<Longrightarrow> \<not> tok_cmp b c \<Longrightarrow> \<not> tok_cmp a c"
  by (auto simp: tok_cmp_def type_equal_def str_cmp_def split: if_splits)

lemma macrocmp_equivalent: "macrocmp a b = (\<not> equivalent_macros a b)"
  by (auto simp: macrocmp_def equivalent_macros_def list_ex_iff list_all2_conv_all_nth)

lemma equivalent_macros_refl: "equivalent_macros m m"
  by (simp add: equivalent_macros_def tok_cmp_refl list_all2_same)

lemma equivalent_macros_euclid:
  assumes "equivalent_macros r a" and "equivalent_macros r b"
  shows "equivalent_macros a b"
proof -
  have "list_all2 (\<lambda>x y. \<not> tok_cmp x y) (replacement a) (replacement r)"
    using assms(1) unfolding equivalent_macros_def
    by (auto simp: list_all2_conv_all_nth tok_cmp_sym)
  moreover have "list_all2 (\<lambda>x y. \<not> tok_cmp x y) (replacement r) (replacement b)"
    using assms(2) by (simp add: equivalent_macros_def)
  ultimately have "list_all2 (\<lambda>x y. \<not> tok_cmp x y) (replacement a) (replacement b)"
    by (rule list_all2_trans [rotated]) (rule tok_cmp_trans)
  moreover have "\<not> tok_cmp (name a) (name b)"
    using assms tok_cmp_trans [of "name a" "name r" "name b"] tok_cmp_sym [of "name a" "name r"]
    by (simp add: equivalent_macros_def)
  ultimately show ?thesis using assms by (simp add: equivalent_macros_def)
qed

lemma hash_lookup_append_new:
  "hash_lookup tab key = None \<Longrightarrow> macro_hash_key m = key
   \<Longrightarrow> hash_lookup (tab @ [m]) key = Some m"
  by (induction tab) (auto simp: hash_lookup_def split: if_splits)

lemma define_macro_stored:
  assumes "define_macro st m = Inr (st1, c)"
  shows "\<exists>ref. hash_lookup (macro_hash_table st1) (macro_hash_key m) = Some ref
           \<and> equivalent_macros ref m"
proof (cases "hash_lookup (macro_hash_table st) (macro_hash_key m)")
  case None
  then have "macro_hash_table st1 = macro_hash_table st @ [m]"
    using assms by (auto simp: define_macro_def hash_insert_def split: if_splits)
  then have "hash_lookup (macro_hash_table st1) (macro_hash_key m) = Some m"
    using None by (simp add: hash_lookup_append_new)
  then show ?thesis using equivalent_macros_refl by simp
next
  case (Some ref)
  then show ?thesis
    using assms
    by (auto simp: define_macro_def hash_insert_def macrocmp_equivalent split: if_splits)
qed

text \<open>
  Claim C2. \<^verbatim>\<open>define(m)\<close> succeeds in a table that does not hold the name of \<open>m\<close>, and
  the table takes the macro. After \<^verbatim>\<open>define(m)\<close> has succeeded, a second \<^verbatim>\<open>define(m)\<close>
  succeeds, leaves the table as it is and clears the replacement list of its argument
  (the result \<open>True\<close>); and \<^verbatim>\<open>define(m')\<close> for a macro \<open>m'\<close> with the same key that is not
  structurally equivalent to \<open>m\<close> ends the session with the diagnostic
  \<open>RedefinitionMismatch\<close> and status 1.
\<close>

theorem define_twice:
  "(hash_lookup (macro_hash_table st) (macro_hash_key m) = None \<longrightarrow>
      define_macro st m =
        Inr (st\<lparr>new_macro_added := True, macro_hash_table := macro_hash_table st @ [m]\<rparr>,
             False))
   \<and> (define_macro st m = Inr (st1, c) \<longrightarrow>
     define_macro st1 m = Inr (st1\<lparr>new_macro_added := False\<rparr>, True)
     \<and> (macro_hash_key m' = macro_hash_key m \<and> \<not> equivalent_macros m m' \<longrightarrow>
          define_macro st1 m' = Inl (Exit RedefinitionMismatch)
          \<and> exit_status (Exit RedefinitionMismatch) = Some 1))"
proof (intro impI conjI)
  assume "hash_lookup (macro_hash_table st) (macro_hash_key m) = None"
  then show "define_macro st m =
        Inr (st\<lparr>new_macro_added := True, macro_hash_table := macro_hash_table st @ [m]\<rparr>,
             False)"
    using equivalent_macros_refl
    by (simp add: define_macro_def hash_insert_def macrocmp_equivalent)
next
  assume a: "define_macro st m = Inr (st1, c)"
  then obtain ref where ref: "hash_lookup (macro_hash_table st1) (macro_hash_key m) = Some ref"
    and eq: "equivalent_macros ref m"
    using define_macro_stored by blast
  show "define_macro st1 m = Inr (st1\<lparr>new_macro_added := False\<rparr>, True)"
    using ref eq by (simp add: define_macro_def hash_insert_def macrocmp_equivalent)
  assume b: "macro_hash_key m' = macro_hash_key m \<and> \<not> equivalent_macros m m'"
  then have "\<not> equivalent_macros ref m'" using eq equivalent_macros_euclid by blast
  then show "define_macro st1 m' = Inl (Exit RedefinitionMismatch)"
    using ref b by (simp add: define_macro_def hash_insert_def macrocmp_equivalent)
  show "exit_status (Exit RedefinitionMismatch) = Some 1" by simp
qed

text \<open>\<^verbatim>\<open>FOO\<close> defined as \<^verbatim>\<open>42\<close>, again as \<^verbatim>\<open>42\<close>, and then as \<^verbatim>\<open>43\<close>.\<close>

theorem define_twice_witness:
  "define_macro (example_engine []) (object_macro ''FOO'' [int_number 0 ''42'' 42])
     = Inr ((example_engine [object_macro ''FOO'' [int_number 0 ''42'' 42]])
              \<lparr>new_macro_added := True\<rparr>, False)
   \<and> define_macro ((example_engine [object_macro ''FOO'' [int_number 0 ''42'' 42]])
              \<lparr>new_macro_added := True\<rparr>) (object_macro ''FOO'' [int_number 0 ''42'' 42])
     = Inr (example_engine [object_macro ''FOO'' [int_number 0 ''42'' 42]], True)
   \<and> macro_hash_key (object_macro ''FOO'' [int_number 0 ''43'' 43])
      = macro_hash_key (object_macro ''FOO'' [int_number 0 ''42'' 42])
   \<and> \<not> equivalent_macros (object_macro ''FOO'' [int_number 0 ''42'' 42])
         (object_macro ''FOO'' [int_number 0 ''43'' 43])
   \<and> define_macro ((example_engine [object_macro ''FOO'' [int_number 0 ''42'' 42]])
              \<lparr>new_macro_added := True\<rparr>) (object_macro ''FOO'' [int_number 0 ''43'' 43])
     = Inl (Exit RedefinitionMismatch)"
proof -
  have d: "define_macro (example_engine []) (object_macro ''FOO'' [int_number 0 ''42'' 42])
     = Inr ((example_engine [object_macro ''FOO'' [int_number 0 ''42'' 42]])
              \<lparr>new_macro_added := True\<rparr>, False)"
    by (simp add: define_macro_def hash_insert_def hash_lookup_def example_engine_def
        macrocmp_equivalent equivalent_macros_refl)
  have k: "macro_hash_key (object_macro ''FOO'' [int_number 0 ''43'' 43])
      = macro_hash_key (object_macro ''FOO'' [int_number 0 ''42'' 42])"
    by (simp add: macro_hash_key_def object_macro_def)
  have n: "\<not> equivalent_macros (object_macro ''FOO'' [int_number 0 ''42'' 42])
         (object_macro ''FOO'' [int_number 0 ''43'' 43])"
    by (simp add: equivalent_macros_def object_macro_def int_number_def tok_cmp_def
        type_equal_def val_i_def)
  show ?thesis
    using define_twice [of "example_engine []" "object_macro ''FOO'' [int_number 0 ''42'' 42]"
        "(example_engine [object_macro ''FOO'' [int_number 0 ''42'' 42]])\<lparr>new_macro_added := True\<rparr>"
        False "object_macro ''FOO'' [int_number 0 ''43'' 43]"] d k n
    by (simp add: example_engine_def)
qed

subsection \<open>Lookup and the line number\<close>

lemma hash_store_lookup:
  "hash_lookup tab key = Some ref \<Longrightarrow> macro_hash_key r = key
   \<Longrightarrow> hash_lookup (hash_store tab r) key = Some r"
  by (induction tab) (auto simp: hash_lookup_def)

text \<open>
  Claim C8. For an \<open>IDENTIFIER\<close> token whose string is \<^verbatim>\<open>__LINE__\<close> and that the table
  maps to a macro \<open>ref\<close> whose replacement list has a first token \<open>t\<close>, the lookup returns the
  macro \<open>m\<close> whose first replacement token carries the line the tracker reports, and
  has stored \<open>m\<close> in the table in the place of \<open>ref\<close>. The lookup of a token that is not
  an \<open>IDENTIFIER\<close>, or of a string the table does not map, returns no macro and leaves
  the engine as it was.
\<close>

theorem definition_of_line:
  "(token nam = IDENTIFIER \<and> d_string nam = ''__LINE__''
    \<and> hash_lookup (macro_hash_table st) ''__LINE__'' = Some ref
    \<and> replacement ref = t # ts
    \<and> m = ref\<lparr>replacement := t\<lparr>d_number := (d_number t)\<lparr>val := current_file_line X\<rparr>\<rparr> # ts\<rparr>
    \<longrightarrow> definition_of X st nam =
          Inr (Some m, st\<lparr>macro_hash_table := hash_store (macro_hash_table st) m\<rparr>)
        \<and> hash_lookup (hash_store (macro_hash_table st) m) ''__LINE__'' = Some m
        \<and> val (d_number (hd (replacement m))) = current_file_line X)
   \<and> (token nam \<noteq> IDENTIFIER \<longrightarrow> definition_of X st nam = Inr (None, st))
   \<and> (hash_lookup (macro_hash_table st) (d_string nam) = None
      \<longrightarrow> definition_of X st nam = Inr (None, st))"
proof (intro conjI impI)
  assume a: "token nam = IDENTIFIER \<and> d_string nam = ''__LINE__''
    \<and> hash_lookup (macro_hash_table st) ''__LINE__'' = Some ref \<and> replacement ref = t # ts
    \<and> m = ref\<lparr>replacement := t\<lparr>d_number := (d_number t)\<lparr>val := current_file_line X\<rparr>\<rparr> # ts\<rparr>"
  have key: "d_string (name ref) = ''__LINE__''"
    using a hash_lookup_Some [of "macro_hash_table st" "''__LINE__''" ref]
    by (simp add: macro_hash_key_def)
  show "definition_of X st nam =
          Inr (Some m, st\<lparr>macro_hash_table := hash_store (macro_hash_table st) m\<rparr>)"
    using a key by (simp add: definition_of_def str_cmp_def Let_def)
  show "hash_lookup (hash_store (macro_hash_table st) m) ''__LINE__'' = Some m"
    using a key by (intro hash_store_lookup) (simp_all add: macro_hash_key_def)
  show "val (d_number (hd (replacement m))) = current_file_line X"
    using a by simp
qed (simp_all add: definition_of_def)

text \<open>With the tracker at line 17, the lookup of \<^verbatim>\<open>__LINE__\<close>, defined as \<^verbatim>\<open>0\<close>, returns
  and stores the replacement \<^verbatim>\<open>17\<close>.\<close>

theorem definition_of_line_witness:
  "definition_of example_extern
     (example_engine [object_macro ''__LINE__'' [int_number 0 ''0'' 0]]) (ident 0 ''__LINE__'')
   = Inr (Some (object_macro ''__LINE__'' [int_number 0 ''0'' 17]),
          example_engine [object_macro ''__LINE__'' [int_number 0 ''0'' 17]])
   \<and> val_i (int_number 0 ''0'' 17) = 17
   \<and> definition_of example_extern
     (example_engine [object_macro ''__LINE__'' [int_number 0 ''0'' 0]]) (punct 0 CHR ''+'')
     = Inr (None, example_engine [object_macro ''__LINE__'' [int_number 0 ''0'' 0]])
   \<and> definition_of example_extern
     (example_engine [object_macro ''__LINE__'' [int_number 0 ''0'' 0]]) (ident 0 ''FOO'')
     = Inr (None, example_engine [object_macro ''__LINE__'' [int_number 0 ''0'' 0]])"
  using definition_of_line [of "ident 0 ''__LINE__''"
      "example_engine [object_macro ''__LINE__'' [int_number 0 ''0'' 0]]"
      "object_macro ''__LINE__'' [int_number 0 ''0'' 0]" "int_number 0 ''0'' 0" "[]"
      "object_macro ''__LINE__'' [int_number 0 ''0'' 17]" example_extern]
    definition_of_line [of "punct 0 CHR ''+''"
      "example_engine [object_macro ''__LINE__'' [int_number 0 ''0'' 0]]" _ _ _ _ example_extern]
    definition_of_line [of "ident 0 ''FOO''"
      "example_engine [object_macro ''__LINE__'' [int_number 0 ''0'' 0]]" _ _ _ _ example_extern]
  by (simp add: example_extern_def example_engine_def object_macro_def int_number_def
      ident_def punct_def mk_token_def hash_lookup_def macro_hash_key_def val_i_def
      definition_of_def str_cmp_def Let_def)

text \<open>When the macro that \<^verbatim>\<open>__LINE__\<close> is mapped to has an empty replacement list, there is
  no first replacement token: the store of the line goes through index 0 of an empty
  array, and no macro is returned.\<close>

theorem definition_of_line_counterexample:
  "token (ident 0 ''__LINE__'') = IDENTIFIER
   \<and> hash_lookup (macro_hash_table (example_engine [object_macro ''__LINE__'' []]))
         (d_string (ident 0 ''__LINE__'')) = Some (object_macro ''__LINE__'' [])
   \<and> definition_of example_extern (example_engine [object_macro ''__LINE__'' []])
         (ident 0 ''__LINE__'') = Inl Undefined"
  by (simp add: example_extern_def example_engine_def object_macro_def
      ident_def mk_token_def hash_lookup_def macro_hash_key_def
      definition_of_def str_cmp_def Let_def)

subsection \<open>Stringification\<close>

lemma stringify_loop_spelling:
  "length buf = ln \<Longrightarrow> \<forall>t \<in> set (take (len list) list). token t \<noteq> NEWLINE
   \<Longrightarrow> \<forall>t \<in> set (take (len list) list). no_zero_byte (tokstr X t)
   \<Longrightarrow> stringify_loop X list n ln buf =
       Inr (ln + length (concat (map (\<lambda>(i, t). (if 0 < leading_whitespace t \<and> 0 < i
                                                  then '' '' else []) @ tokstr X t)
                                  (enumerate n (take (len list) list)))),
            buf @ concat (map (\<lambda>(i, t). (if 0 < leading_whitespace t \<and> 0 < i
                                          then '' '' else []) @ tokstr X t)
                              (enumerate n (take (len list) list))))"
proof (induction list arbitrary: n ln buf)
  case Nil
  then show ?case by simp
next
  case (Cons t list)
  show ?case
  proof (cases "token t = END")
    case True
    then show ?thesis using Cons.prems by simp
  next
    case False
    define sp :: string where
      "sp = (if 0 < leading_whitespace t \<and> 0 < n then '' '' else [])"
    define ln' where "ln' = ln + length (tokstr X t)
                  + (if leading_whitespace t \<noteq> 0 \<and> n \<noteq> 0 then 1 else 0)"
    define buf' where "buf' = (if n \<noteq> 0 \<and> leading_whitespace t \<noteq> 0
                    then store_space buf (ln' - length (tokstr X t) - 1) else buf)"
    have nl: "token t \<noteq> NEWLINE" using Cons.prems(2) False by simp
    have step: "stringify_loop X (t # list) n ln buf
        = stringify_loop X list (n + 1) ln' (strncat_buf buf' (tokstr X t) ln')"
      using False nl by (simp add: Let_def ln'_def buf'_def)
    have b': "buf' = buf @ sp"
      using Cons.prems(1) by (auto simp: buf'_def sp_def ln'_def store_space_def)
    have l': "ln' = ln + length sp + length (tokstr X t)"
      by (auto simp: ln'_def sp_def)
    have "no_zero_byte (tokstr X t)" using Cons.prems(3) False by simp
    then have cs: "c_str (tokstr X t) = tokstr X t"
      by (simp add: c_str_def no_zero_byte_def takeWhile_eq_all_conv) metis
    have cat: "strncat_buf buf' (tokstr X t) ln' = buf @ sp @ tokstr X t"
      by (simp add: strncat_buf_def cs b' l')
    have len: "length (strncat_buf buf' (tokstr X t) ln') = ln'"
      unfolding cat using Cons.prems(1) by (simp add: l')
    have rest: "\<forall>t \<in> set (take (len list) list). token t \<noteq> NEWLINE"
      using Cons.prems(2) False by simp
    have rest0: "\<forall>t \<in> set (take (len list) list). no_zero_byte (tokstr X t)"
      using Cons.prems(3) False by simp
    have "stringify_loop X (t # list) n ln buf
        = stringify_loop X list (n + 1) ln' (buf @ sp @ tokstr X t)"
      using step cat by simp
    also have "\<dots> = Inr (ln' + length (concat (map (\<lambda>(i, t). (if 0 < leading_whitespace t \<and> 0 < i
                                                  then '' '' else []) @ tokstr X t)
                                  (enumerate (n + 1) (take (len list) list)))),
            (buf @ sp @ tokstr X t) @ concat (map (\<lambda>(i, t). (if 0 < leading_whitespace t \<and> 0 < i
                                          then '' '' else []) @ tokstr X t)
                              (enumerate (n + 1) (take (len list) list))))"
      using Cons.IH [OF len rest rest0] cat by simp
    finally show ?thesis
      using False by (simp add: l' sp_def)
  qed
qed

lemma spelling_later:
  "0 < n \<Longrightarrow>
   map (\<lambda>(i, t). (if 0 < leading_whitespace t \<and> 0 < i then '' '' else []) @ tokstr X t)
       (enumerate n ts)
   = map (\<lambda>u. (if 0 < leading_whitespace u then '' '' else []) @ tokstr X u) ts"
  by (induction ts arbitrary: n) simp_all

lemma normalized_spelling_Cons:
  "normalized_spelling X (t # ts)
   = tokstr X t @ concat (map (\<lambda>u. (if 0 < leading_whitespace u then '' '' else [])
                                      @ tokstr X u) ts)"
  using spelling_later [of "Suc 0" X ts] by (simp add: normalized_spelling_def)

text \<open>
  Claim C5. For a list without \<open>NEWLINE\<close> whose spellings hold no zero byte,
  \<^verbatim>\<open>stringify\<close> returns one \<open>STRING\<close> token whose string is the spellings of the tokens
  of the list in order, with exactly one space before a token if and only if its
  leading whitespace is greater than zero and it is not the first token: the string of
  the empty list is empty, and that of a list starts with the spelling of its first
  token, whatever the leading whitespace of that token, and has nothing behind the
  spelling of the last one.
\<close>

theorem stringify_spelling:
  "\<forall>t \<in> set (take (len list) list). token t \<noteq> NEWLINE \<and> no_zero_byte (tokstr X t) \<Longrightarrow>
   stringify X list = Inr (mk_token STRING 0 (normalized_spelling X (take (len list) list)))
   \<and> normalized_spelling X [] = []
   \<and> normalized_spelling X (u # us)
       = tokstr X u @ concat (map (\<lambda>v. (if 0 < leading_whitespace v then '' '' else [])
                                          @ tokstr X v) us)"
  using stringify_loop_spelling [of "[]" 0 list X 0] normalized_spelling_Cons [of X u us]
  by (simp add: stringify_def normalized_spelling_def mk_token_def)

text \<open>The argument of \<^verbatim>\<open>STR(hello world)\<close>, and the expansion of the invocation for
  \<open>STR(x)\<close> defined as \<^verbatim>\<open># x\<close>.\<close>

theorem stringify_spelling_witness:
  "stringify example_extern [ident 0 ''hello'', ident 1 ''world'']
     = Inr (mk_token STRING 0 ''hello world'')
   \<and> expand example_extern
       (example_engine [function_macro ''STR'' 1 [punct 0 CHR ''#'', param 1 0]])
       [ident 0 ''STR'', punct 0 CHR ''('', ident 0 ''hello'', ident 1 ''world'',
        punct 0 CHR '')'']
     = Inr ([mk_token STRING 0 ''hello world''],
            example_engine [function_macro ''STR'' 1 [punct 0 CHR ''#'', param 1 0]])"
proof -
  have "expand example_extern
       (example_engine [function_macro ''STR'' 1 [punct 0 CHR ''#'', param 1 0]])
       [ident 0 ''STR'', punct 0 CHR ''('', ident 0 ''hello'', ident 1 ''world'',
        punct 0 CHR '')'']
     = Inr ([mk_token STRING 0 ''hello world''],
            example_engine [function_macro ''STR'' 1 [punct 0 CHR ''#'', param 1 0]])"
    by code_simp
  then show ?thesis
    using stringify_spelling [of "[ident 0 ''hello'', ident 1 ''world'']" example_extern]
    by (simp add: normalized_spelling_def no_zero_byte_def ident_def mk_token_def
        example_extern_def)
qed

text \<open>A spelling that holds a zero byte is copied up to that byte only, while the
  length counts all of it: the string returned is taken over bytes that were never
  written. And a token whose spelling is empty does not keep a space from the start of
  the string.\<close>

theorem stringify_spelling_counterexample:
  "stringify example_extern [ident 0 [CHR ''a'', CHR 0x00, CHR ''b'']] = Inl Undefined
   \<and> normalized_spelling example_extern [ident 0 [CHR ''a'', CHR 0x00, CHR ''b'']]
       = [CHR ''a'', CHR 0x00, CHR ''b'']
   \<and> stringify example_extern [ident 0 [], ident 1 ''x'']
       = Inr (mk_token STRING 0 '' x'')"
  by (simp add: stringify_def strncat_buf_def c_str_def store_space_def
      normalized_spelling_def ident_def mk_token_def example_extern_def zero_number_def)

text \<open>
  Claim C10. Stringifying the empty list (the sentinel alone, implicit or as a token of
  kind \<open>END\<close> at the head of the list) returns the \<open>STRING\<close> token whose string is
  empty.
\<close>

theorem stringify_empty:
  "stringify X [] = Inr (mk_token STRING 0 [])
   \<and> stringify X (t\<lparr>token := END\<rparr> # list) = Inr (mk_token STRING 0 [])
   \<and> length (d_string (mk_token STRING 0 [])) = 0"
  by (simp add: stringify_def mk_token_def)

subsection \<open>Token pasting\<close>













subsection \<open>The argument reader\<close>

lemma read_arg_loop_tokens:
  "read_arg_loop list nesting arg = Inr (arg', rest) \<Longrightarrow> arg' \<noteq> [] \<and> arg' @ rest = arg @ list"
proof (induction list arbitrary: nesting arg)
  case Nil
  then show ?case by simp
next
  case (Cons t list)
  define n' where "n' = (if token t = PUNCT CHR ''('' then nesting + 1
                        else if token t = PUNCT CHR '')'' then nesting - 1
                        else nesting)"
  have eq: "read_arg_loop (t # list) nesting arg =
     (if token t = END then Inl (Exit UnterminatedInvocation)
      else if token t = PUNCT CHR '')'' \<and> n' < 0 then Inl (Exit UnbalancedParens)
           else if n' \<noteq> 0 \<or> (peek list \<noteq> PUNCT CHR '','' \<and> peek list \<noteq> PUNCT CHR '')'')
           then read_arg_loop list n' (arg @ [t])
           else Inr (arg @ [t], list))"
    unfolding n'_def by (simp only: read_arg_loop.simps Let_def)
  show ?case
  proof (cases "n' \<noteq> 0 \<or> (peek list \<noteq> PUNCT CHR '','' \<and> peek list \<noteq> PUNCT CHR '')'')")
    case True
    then have "read_arg_loop list n' (arg @ [t]) = Inr (arg', rest)"
      using Cons.prems unfolding eq by (simp split: if_splits)
    then show ?thesis using Cons.IH by fastforce
  next
    case False
    then have "arg' = arg @ [t] \<and> rest = list"
      using Cons.prems unfolding eq by (simp split: if_splits)
    then show ?thesis by simp
  qed
qed

text \<open>
  Claim C6 does not hold of the code. The loop of \<^verbatim>\<open>read_arg\<close> is a \<^verbatim>\<open>do\<close> loop: it takes
  the token it starts at before it tests for a comma or a closing parenthesis at depth
  zero, although its comment says that reading stops at a comma at depth zero. On
  \<^verbatim>\<open>F()\<close>, for a macro \<open>F\<close> with one parameter, and on \<^verbatim>\<open>G(x,)\<close>, for a macro \<open>G\<close> with two,
  the empty argument starts at the closing parenthesis and the reader fails with
  \<open>UnbalancedParens\<close>; on \<^verbatim>\<open>G(,y)\<close> the first argument returned is \<^verbatim>\<open>, y\<close> and the
  invocation fails with \<open>UnterminatedInvocation\<close>. No argument read is the empty list.
\<close>

theorem read_arg_empty_argument:
  "read_arg list \<noteq> Inr ([], rest)
   \<and> (read_args (example_engine []) [punct 0 CHR ''('', punct 0 CHR '')'']
       (function_macro ''F'' 1 [param 0 0])
     = Inl (Exit UnbalancedParens)
   \<and> read_args (example_engine [])
       [punct 0 CHR ''('', ident 0 ''x'', punct 0 CHR '','', punct 0 CHR '')'']
       (function_macro ''G'' 2 [param 0 0, param 1 1])
     = Inl (Exit UnbalancedParens)
   \<and> read_arg [punct 0 CHR '','', ident 0 ''y'', punct 0 CHR '')'']
     = Inr ([punct 0 CHR '','', ident 0 ''y''], [punct 0 CHR '')''])
   \<and> read_args (example_engine [])
       [punct 0 CHR ''('', punct 0 CHR '','', ident 0 ''y'', punct 0 CHR '')'']
       (function_macro ''G'' 2 [param 0 0, param 1 1])
     = Inl (Exit UnterminatedInvocation)
   \<and> expand example_extern (example_engine [function_macro ''F'' 1 [param 0 0]])
       [ident 0 ''F'', punct 0 CHR ''('', punct 0 CHR '')'']
     = Inl (Exit UnbalancedParens)
   \<and> read_arg [ident 0 ''x'', punct 0 CHR '','', ident 1 ''y'', punct 0 CHR '')'']
     = Inr ([ident 0 ''x''], [punct 0 CHR '','', ident 1 ''y'', punct 0 CHR '')'']))"
proof (rule conjI)
  show "read_arg list \<noteq> Inr ([], rest)"
    using read_arg_loop_tokens [of list 0 "[]" "[]" rest] by (auto simp: read_arg_def)
  show "read_args (example_engine []) [punct 0 CHR ''('', punct 0 CHR '')'']
       (function_macro ''F'' 1 [param 0 0])
     = Inl (Exit UnbalancedParens)
   \<and> read_args (example_engine [])
       [punct 0 CHR ''('', ident 0 ''x'', punct 0 CHR '','', punct 0 CHR '')'']
       (function_macro ''G'' 2 [param 0 0, param 1 1])
     = Inl (Exit UnbalancedParens)
   \<and> read_arg [punct 0 CHR '','', ident 0 ''y'', punct 0 CHR '')'']
     = Inr ([punct 0 CHR '','', ident 0 ''y''], [punct 0 CHR '')''])
   \<and> read_args (example_engine [])
       [punct 0 CHR ''('', punct 0 CHR '','', ident 0 ''y'', punct 0 CHR '')'']
       (function_macro ''G'' 2 [param 0 0, param 1 1])
     = Inl (Exit UnterminatedInvocation)
   \<and> expand example_extern (example_engine [function_macro ''F'' 1 [param 0 0]])
       [ident 0 ''F'', punct 0 CHR ''('', punct 0 CHR '')'']
     = Inl (Exit UnbalancedParens)
   \<and> read_arg [ident 0 ''x'', punct 0 CHR '','', ident 1 ''y'', punct 0 CHR '')'']
     = Inr ([ident 0 ''x''], [punct 0 CHR '','', ident 1 ''y'', punct 0 CHR '')''])"
    by code_simp
qed

text \<open>
  Claim C9 does not hold of the code: a token other than the expected one is reported
  and skipped, without \<^verbatim>\<open>exit\<close>. \<^verbatim>\<open>skip\<close> returns the rest of the list and the engine
  with one more diagnostic; on \<^verbatim>\<open>F(x, y)\<close>, for a macro \<open>F\<close> with one parameter, a comma
  stands where the closing parenthesis is expected, and \<^verbatim>\<open>expand\<close> returns the list
  \<^verbatim>\<open>x y )\<close>.
\<close>

theorem skip_goes_on:
  "(token t \<noteq> tok \<and> token t \<noteq> END \<and> \<not> (peek list = NEWLINE \<and> peek (tl list) \<noteq> END)
      \<longrightarrow> skip st (t # list) tok = Inr (list, st\<lparr>errors := errors st @ [ExpectedToken tok]\<rparr>))
   \<and> expand example_extern (example_engine [function_macro ''F'' 1 [param 0 0]])
       [ident 0 ''F'', punct 0 CHR ''('', ident 0 ''x'', punct 0 CHR '','', ident 1 ''y'',
        punct 0 CHR '')'']
     = Inr ([ident 0 ''x'', ident 1 ''y'', punct 0 CHR '')''],
            (example_engine [function_macro ''F'' 1 [param 0 0]])
              \<lparr>errors := [ExpectedToken (PUNCT CHR '')'')]\<rparr>)"
proof
  show "token t \<noteq> tok \<and> token t \<noteq> END \<and> \<not> (peek list = NEWLINE \<and> peek (tl list) \<noteq> END)
      \<longrightarrow> skip st (t # list) tok = Inr (list, st\<lparr>errors := errors st @ [ExpectedToken tok]\<rparr>)"
    by (simp add: skip_def Let_def)
  show "expand example_extern (example_engine [function_macro ''F'' 1 [param 0 0]])
       [ident 0 ''F'', punct 0 CHR ''('', ident 0 ''x'', punct 0 CHR '','', ident 1 ''y'',
        punct 0 CHR '')'']
     = Inr ([ident 0 ''x'', ident 1 ''y'', punct 0 CHR '')''],
            (example_engine [function_macro ''F'' 1 [param 0 0]])
              \<lparr>errors := [ExpectedToken (PUNCT CHR '')'')]\<rparr>)"
    by code_simp
qed

theorem skip_goes_on_witness:
  "skip (example_engine []) [punct 0 CHR '','', ident 1 ''y''] (PUNCT CHR '')'')
     = Inr ([ident 1 ''y''], (example_engine [])\<lparr>errors := [ExpectedToken (PUNCT CHR '')'')]\<rparr>)"
  using skip_goes_on [of "punct 0 CHR '',''" "PUNCT CHR '')''" "[ident 1 ''y'']" "example_engine []"]
  by (simp add: example_simps example_engine_def peek_def)

subsection \<open>The expander\<close>

lemma definition_of_stop: "definition_of X st t = Inl e \<Longrightarrow> e = Undefined"
  by (auto simp: definition_of_def Let_def split: if_splits option.splits list.splits)

lemma needs_expansion_stop: "needs_expansion X st list = Inl e \<Longrightarrow> e = Undefined"
proof (induction list arbitrary: st)
  case Nil
  then show ?case by simp
next
  case (Cons t list)
  show ?case
  proof (cases "definition_of X st t")
    case (Inl e')
    then show ?thesis using Cons.prems definition_of_stop by (auto split: if_splits)
  next
    case (Inr p)
    obtain d st1 where p: "p = (d, st1)" by (cases p)
    show ?thesis
      using Cons.prems Inr p Cons.IH [of st1]
      by (cases d) (auto split: if_splits)
  qed
qed

lemma skip_stop: "skip st list tok = Inl e \<Longrightarrow> e \<noteq> Abort NotExpanded"
  by (cases list) (auto simp: skip_def Let_def split: if_splits)

lemma read_arg_loop_stop: "read_arg_loop list n arg = Inl e \<Longrightarrow> e \<noteq> Abort NotExpanded"
proof (induction list arbitrary: n arg)
  case Nil
  then show ?case by auto
next
  case (Cons t list)
  then show ?case by (auto simp: Let_def split: if_splits)
qed

lemma read_args_loop_stop:
  "read_args_loop st list m n args = Inl e \<Longrightarrow> e \<noteq> Abort NotExpanded"
proof (induction st list m n args rule: read_args_loop.induct)
  case (1 st list m n args)
  note pr = "1.prems" [unfolded read_args_loop.simps [of st list m n args]]
  show ?case
  proof (cases "n < params m")
    case False
    then show ?thesis using pr by simp
  next
    case True
    show ?thesis
    proof (cases "read_arg list")
      case (Inl e')
      then show ?thesis using pr True read_arg_loop_stop by (auto simp: read_arg_def)
    next
      case (Inr p)
      obtain arg l1 where p: "p = (arg, l1)" by (cases p)
      show ?thesis
      proof (cases "int n < int (params m) - 1")
        case c: True
        show ?thesis
        proof (cases "skip st l1 (PUNCT CHR '','')")
          case (Inl e')
          then show ?thesis using pr True Inr p c skip_stop by auto
        next
          case sk: (Inr q)
          obtain l2 st2 where q: "q = (l2, st2)" by (cases q)
          show ?thesis
            using "1.IH"(1) [OF True Inr [unfolded p] refl c sk [unfolded q] refl] pr True Inr p c sk q
            by simp
        qed
      next
        case c: False
        show ?thesis
          using "1.IH"(2) [OF True Inr [unfolded p] refl c] pr True Inr p c by simp
      qed
    qed
  qed
qed

lemma read_args_stop: "read_args st list m = Inl e \<Longrightarrow> e \<noteq> Abort NotExpanded"
  using skip_stop [of _ _ _ "Abort NotExpanded"] read_args_loop_stop [of _ _ _ _ _ "Abort NotExpanded"]
  by (auto simp: read_args_def Let_def split: if_splits sum.splits)

lemma paste_stop: "paste X l r = Inl e \<Longrightarrow> e \<noteq> Abort NotExpanded"
  by (auto simp: paste_def Let_def split: prod.splits if_splits)

lemma paste_loop_stop: "paste_loop X cur list = Inl e \<Longrightarrow> e \<noteq> Abort NotExpanded"
proof (induction X cur list rule: paste_loop.induct)
  case (1 X cur)
  then show ?case by simp
next
  case (2 X cur e' list)
  then show ?case
    using paste_stop [of _ _ _ "Abort NotExpanded"]
    by (auto split: if_splits list.splits sum.splits)
qed

lemma expand_paste_operators_stop:
  "expand_paste_operators X list = Inl e \<Longrightarrow> e \<noteq> Abort NotExpanded"
  using paste_loop_stop [of _ _ _ "Abort NotExpanded"]
  by (auto simp: expand_paste_operators_def split: list.splits if_splits)

lemma stringify_loop_stop:
  "stringify_loop X list n ln buf = Inl e \<Longrightarrow> e \<noteq> Abort NotExpanded"
proof (induction list arbitrary: n ln buf)
  case Nil
  then show ?case by simp
next
  case (Cons t list)
  then show ?case by (auto simp: Let_def split: if_splits)
qed

lemma stringify_stop: "stringify X list = Inl e \<Longrightarrow> e \<noteq> Abort NotExpanded"
  using stringify_loop_stop [of _ _ _ _ _ "Abort NotExpanded"]
  by (auto simp: stringify_def split: sum.splits prod.splits if_splits)

lemma arg_at_stop: "arg_at args k = Inl e \<Longrightarrow> e = Undefined"
  by (auto simp: arg_at_def split: if_splits)

lemma pop_stop: "pop_expand_stack st = Inl e \<Longrightarrow> e = Abort StackNonEmpty"
  by (auto simp: pop_expand_stack_def split: if_splits)

lemma push_stop: "\<not> is_macro_expanded st m \<Longrightarrow> \<exists>st1. push_expand_stack st m = Inr st1"
  by (simp add: push_expand_stack_def)

lemma is_macro_expanded_shape:
  "shape st' = shape st \<Longrightarrow> is_macro_expanded st' m = is_macro_expanded st m"
  by (simp add: is_macro_expanded_blocked)

lemma expand_shape:
  "expand X st original = Inr (out, st') \<Longrightarrow> shape st' = shape st"
  using expand_shape_partial(1) expand_total by blast

lemma no_reentry:
  "expand X st original = Inl e \<Longrightarrow> e \<noteq> Abort NotExpanded"
  "expand_loop X st list res = Inl e \<Longrightarrow> e \<noteq> Abort NotExpanded"
  "\<not> is_macro_expanded st m \<Longrightarrow> expand_macro X st m args = Inl e \<Longrightarrow> e \<noteq> Abort NotExpanded"
  "expand_macro_loop X st args toks res = Inl e \<Longrightarrow> e \<noteq> Abort NotExpanded"
proof (induct X st original and X st list res and X st m args and X st args toks res
       arbitrary: e and e and e and e
       rule: expand_expand_loop_expand_macro_expand_macro_loop.induct)
  case (1 X st original)
  note pr = "1.prems" [unfolded expand.simps [of X st original]]
  show ?case
  proof (cases "needs_expansion X st original")
    case (Inl e')
    then show ?thesis using pr needs_expansion_stop by auto
  next
    case (Inr p)
    obtain need st1 where p: "p = (need, st1)" by (cases p)
    show ?thesis
      using pr Inr p "1.hyps" [OF Inr [unfolded p] refl] by (cases need) auto
  qed
next
  case (2 X st list res)
  note pr = "2.prems" [unfolded expand_loop.simps [of X st list res]]
  show ?case
  proof (cases list)
    case Nil
    then show ?thesis using pr by simp
  next
    case (Cons t list')
    show ?thesis
    proof (cases "token t = END")
      case True
      then show ?thesis using pr Cons by simp
    next
      case notend: False
      show ?thesis
      proof (cases "definition_of X st t")
        case (Inl e')
        then show ?thesis using pr Cons notend definition_of_stop by auto
      next
        case (Inr p)
        obtain d st1 where p: "p = (d, st1)" by (cases p)
        note d = Inr [unfolded p]
        show ?thesis
        proof (cases d)
          case None
          then show ?thesis
            using pr Cons notend d "2.hyps"(1) [OF Cons notend d refl] by simp
        next
          case (Some m)
          show ?thesis
          proof (cases "is_invocation st1 m list'")
            case False
            then show ?thesis
              using pr Cons notend d Some "2.hyps"(4) [OF Cons notend d refl Some False]
              by simp
          next
            case True
            show ?thesis
            proof (cases "read_args st1 list' m")
              case (Inl e')
              then show ?thesis using pr Cons notend d Some True read_args_stop by auto
            next
              case ra: (Inr q)
              obtain args l2 st2 where q: "q = (args, l2, st2)" by (cases q)
              have ne: "\<not> is_macro_expanded st2 m"
                using True read_args_shape_length [OF ra [unfolded q]]
                by (simp add: is_invocation_def is_macro_expanded_blocked)
              show ?thesis
              proof (cases "expand_macro X st2 m args")
                case (Inl e')
                then show ?thesis
                  using pr Cons notend d Some True ra q ne
                    "2.hyps"(2) [OF Cons notend d refl Some True ra [unfolded q] refl refl ne]
                  by auto
              next
                case em: (Inr r)
                obtain expn st3 where r: "r = (expn, st3)" by (cases r)
                show ?thesis
                  using pr Cons notend d Some True ra q em r
                    "2.hyps"(3) [OF Cons notend d refl Some True ra [unfolded q] refl refl
                      em [unfolded r] refl]
                  by simp
              qed
            qed
          qed
        qed
      qed
    qed
  qed
next
  case (3 X st m args)
  note pr = "3.prems"(2) [unfolded expand_macro.simps [of X st m args]]
  obtain st1 where pu: "push_expand_stack st m = Inr st1"
    using push_stop [OF "3.prems"(1)] by blast
  show ?case
  proof (cases "expand_macro_loop X st1 args (replacement m) []")
    case (Inl e')
    then show ?thesis using pr pu "3.hyps"(1) [OF pu] by auto
  next
    case lo: (Inr p)
    obtain res st2 where p: "p = (res, st2)" by (cases p)
    show ?thesis
    proof (cases "expand_paste_operators X res")
      case (Inl e')
      then show ?thesis using pr pu lo p expand_paste_operators_stop by auto
    next
      case pa: (Inr res')
      show ?thesis
      proof (cases "expand X st2 res'")
        case (Inl e')
        then show ?thesis
          using pr pu lo p pa "3.hyps"(2) [OF pu lo [unfolded p] refl pa] by auto
      next
        case ex: (Inr q)
        obtain res'' st3 where q: "q = (res'', st3)" by (cases q)
        show ?thesis
          using pr pu lo p pa ex q pop_stop [of st3] by (auto split: sum.splits)
      qed
    qed
  qed
next
  case (4 X st args toks res)
  note pr = "4.prems" [unfolded expand_macro_loop.simps [of X st args toks res]]
  show ?case
  proof (cases toks)
    case Nil
    then show ?thesis using pr by simp
  next
    case (Cons tok toks')
    show ?thesis
    proof (cases "token tok = PARAM")
      case True
      show ?thesis
      proof (cases "arg_at args (param_of tok)")
        case (Inl e')
        then show ?thesis using pr Cons True arg_at_stop by auto
      next
        case (Inr a)
        show ?thesis
        proof (cases a)
          case None
          then show ?thesis using pr Cons True Inr by auto
        next
          case (Some arg)
          show ?thesis
          proof (cases "expand X st (copy arg)")
            case (Inl e')
            then show ?thesis
              using pr Cons True Inr Some "4.hyps"(1) [OF Cons True Inr Some] by auto
          next
            case ex: (Inr q)
            obtain expn st1 where q: "q = (expn, st1)" by (cases q)
            show ?thesis
              using pr Cons True Inr Some ex q
                "4.hyps"(2) [OF Cons True Inr Some ex [unfolded q] refl]
              by simp
          qed
        qed
      qed
    next
      case notparam: False
      show ?thesis
      proof (cases "is_stringify tok toks'")
        case False
        then show ?thesis
          using pr Cons notparam "4.hyps"(4) [OF Cons notparam False] by simp
      next
        case True
        show ?thesis
        proof (cases "arg_at args (param_of (hd toks'))")
          case (Inl e')
          then show ?thesis using pr Cons notparam True arg_at_stop by auto
        next
          case (Inr a)
          show ?thesis
          proof (cases a)
            case None
            then show ?thesis using pr Cons notparam True Inr by auto
          next
            case (Some arg)
            show ?thesis
            proof (cases "stringify X arg")
              case (Inl e')
              then show ?thesis using pr Cons notparam True Inr Some stringify_stop by auto
            next
              case sf: (Inr s)
              show ?thesis
                using pr Cons notparam True Inr Some sf
                  "4.hyps"(3) [OF Cons notparam True Inr Some sf]
                by simp
            qed
          qed
        qed
      qed
    qed
  qed
qed

text \<open>
  Claim C1, as the code has it. \<^verbatim>\<open>expand\<close> terminates on every list in every engine:
  every argument is in the domain of the recursion (whose totality is \<open>expand_total\<close>,
  proved for the definition). The assertion of \<^verbatim>\<open>push_expand_stack\<close> never fails in it,
  so no macro whose name is on the expansion stack is expanded again. With \<open>A\<close> defined as
  \<open>B\<close> and \<open>B\<close> as \<open>A\<close>, the list \<open>A\<close> expands to \<open>A\<close>.
\<close>

theorem expand_terminates:
  "expand_expand_loop_expand_macro_expand_macro_loop_dom (Inl (Inl (X, st, list)))
   \<and> expand X st list \<noteq> Inl (Abort NotExpanded)
   \<and> expand example_extern
       (example_engine [object_macro ''A'' [ident 0 ''B''], object_macro ''B'' [ident 0 ''A'']])
       [ident 0 ''A'']
     = Inr ([ident 0 ''A''],
            example_engine [object_macro ''A'' [ident 0 ''B''], object_macro ''B'' [ident 0 ''A'']])"
proof (intro conjI)
  show "expand_expand_loop_expand_macro_expand_macro_loop_dom (Inl (Inl (X, st, list)))"
    by (rule spec [OF expand_total])
  show "expand X st list \<noteq> Inl (Abort NotExpanded)"
    using no_reentry(1) by blast
  show "expand example_extern
       (example_engine [object_macro ''A'' [ident 0 ''B''], object_macro ''B'' [ident 0 ''A'']])
       [ident 0 ''A'']
     = Inr ([ident 0 ''A''],
            example_engine [object_macro ''A'' [ident 0 ''B''], object_macro ''B'' [ident 0 ''A'']])"
    by code_simp
qed

text \<open>Claim C1 as stated fails where the result is not a list: on \<^verbatim>\<open>F (\<close>, for a macro \<open>F\<close>
  with one parameter, the input ends inside the invocation and \<^verbatim>\<open>expand\<close> ends the
  session.\<close>

theorem expand_exits_counterexample:
  "expand example_extern (example_engine [function_macro ''F'' 1 [param 0 0]])
     [ident 0 ''F'', punct 0 CHR ''('']
   = Inl (Exit UnterminatedInvocation)"
  by code_simp



lemma macro_name_whitespace [simp]:
  "macro_name tab (t\<lparr>leading_whitespace := w\<rparr>) = macro_name tab t"
  by (simp add: macro_name_def)



























lemma expand_loop_shape:
  "expand_loop X st list res = Inr (out, st') \<Longrightarrow> shape st' = shape st"
  using expand_shape_partial(2) expand_total by blast






end
